theory Spec2Isabelle
  imports Main "HOL-Library.Word"
begin

unbundle bit_operations_syntax

chapter \<open>SonicTransfer: codec, framing and receiver session\<close>

text \<open>
  A shallow embedding of the parts of SonicTransfer Enhanced v2.5 that the specification
  makes checkable statements about: the integrity sums, the LZ77-style compressor, the
  carrier selection of the calibrator, the bit framing of the sender, the synchroniser of
  the receiver and the packet handling of the receiver session.

  Conventions. A \<open>Uint8Array\<close> is a \<open>byte list\<close>. JavaScript numbers that stay
  integral and inside the 32-bit range are \<open>int\<close> or \<open>nat\<close>; on such values the bit
  operations of \<open>int\<close> (two's complement, \<open>drop_bit\<close> rounding down) agree with
  \<open>&\<close>, \<open>|\<close>, \<open>^\<close> and \<open>>>\<close>. Where the source converts with \<open>ToInt32\<close> on a
  value that may leave that range, the conversion is written out (\<open>to_int32\<close>).
  \<open>undefined\<close> is \<open>None\<close>.
\<close>

section \<open>Definitions\<close>

subsection \<open>Bytes and JavaScript integers\<close>

type_synonym byte = "8 word"

definition to_int32 :: "int \<Rightarrow> int" where
  \<comment> \<open>\<open>ToInt32\<close>: reduce modulo \<open>2^32\<close> into the signed range.\<close>
  "to_int32 x = sint (word_of_int x :: 32 word)"

definition typed_at :: "byte list \<Rightarrow> nat \<Rightarrow> byte option" where
  \<comment> \<open>Reading \<open>input[i]\<close> of a typed array: \<open>undefined\<close> out of range.\<close>
  "typed_at input i = (if i < length input then Some (input ! i) else None)"

definition int_of_elem :: "byte option \<Rightarrow> int" where
  \<comment> \<open>An array element used as an operand of a bit operation; \<open>undefined\<close> counts as 0.\<close>
  "int_of_elem e = (case e of None \<Rightarrow> 0 | Some b \<Rightarrow> uint b)"

definition to_uint8 :: "byte option \<Rightarrow> byte" where
  \<comment> \<open>Storing an element into a \<open>Uint8Array\<close>; \<open>undefined\<close> is stored as 0.\<close>
  "to_uint8 e = (case e of None \<Rightarrow> 0 | Some b \<Rightarrow> b)"

subsection \<open>Integrity sums\<close>

definition calculateChecksum :: "byte list \<Rightarrow> int" where
  "calculateChecksum data = foldl (\<lambda>checksum b. (checksum + uint b) AND 0xFFFF) 0 data"

definition crc16_shift :: "int \<Rightarrow> int" where
  \<comment> \<open>One round of the inner loop over \<open>j\<close>.\<close>
  "crc16_shift crc =
     (if crc AND 0x0001 \<noteq> 0 then drop_bit 1 crc XOR 0xA001 else drop_bit 1 crc)"

definition crc16_byte :: "int \<Rightarrow> byte \<Rightarrow> int" where
  "crc16_byte crc b = (crc16_shift ^^ 8) (crc XOR uint b)"

definition crc16 :: "byte list \<Rightarrow> int" where
  "crc16 data = foldl crc16_byte 0xFFFF data"

subsection \<open>LZCompressor\<close>

definition windowSize :: nat where
  "windowSize = 4096"

definition lookaheadSize :: nat where
  "lookaheadSize = 18"

text \<open>
  The inner \<open>while\<close> of \<open>compress\<close>: extend the match of the text at \<open>i\<close> with the
  text at \<open>pos\<close>. It is entered with \<open>i < pos\<close>, so both reads are inside the input.
\<close>

function match_length :: "byte list \<Rightarrow> nat \<Rightarrow> nat \<Rightarrow> nat \<Rightarrow> nat" where
  "match_length input i pos len =
     (if len < lookaheadSize \<and> pos + len < length input
         \<and> input ! (i + len) = input ! (pos + len)
      then match_length input i pos (len + 1)
      else len)"
  by pat_completeness auto
termination
  by (relation "measure (\<lambda>(input, i, pos, len). lookaheadSize - len)") auto

declare match_length.simps [simp del]

definition searchStart :: "nat \<Rightarrow> nat" where
  \<comment> \<open>\<open>Math.max(0, pos - windowSize)\<close>\<close>
  "searchStart pos = (if windowSize \<le> pos then pos - windowSize else 0)"

definition search_step :: "byte list \<Rightarrow> nat \<Rightarrow> nat \<times> nat \<Rightarrow> nat \<Rightarrow> nat \<times> nat" where
  \<comment> \<open>The body of the \<open>for\<close> over \<open>i\<close>; the pair is \<open>(matchLength, matchDistance)\<close>.\<close>
  "search_step input pos best i =
     (let len = match_length input i pos 0
      in if len > fst best then (len, pos - i) else best)"

definition find_match :: "byte list \<Rightarrow> nat \<Rightarrow> nat \<times> nat" where
  "find_match input pos = foldl (search_step input pos) (0, 0) [searchStart pos ..< pos]"

definition compress_step :: "byte list \<Rightarrow> nat \<Rightarrow> int list \<times> nat" where
  \<comment> \<open>One round of the outer \<open>while\<close>: the numbers pushed and the next cursor.\<close>
  "compress_step input pos =
     (let (matchLength, matchDistance) = find_match input pos
      in if matchLength \<ge> 3
         then ([0xFF, drop_bit 8 (int matchDistance) AND 0xFF, int matchDistance AND 0xFF,
                int matchLength], pos + matchLength)
         else ([uint (input ! pos)], pos + 1))"

function compress_loop :: "byte list \<Rightarrow> nat \<Rightarrow> int list \<Rightarrow> int list" where
  "compress_loop input pos output =
     (if pos < length input
      then compress_loop input (snd (compress_step input pos))
             (output @ fst (compress_step input pos))
      else output)"
  by pat_completeness auto
termination
proof (relation "measure (\<lambda>(input, pos, output). length input - pos)")
  show "wf (measure (\<lambda>(input, pos, output). length input - pos))"
    by simp
next
  fix input :: "byte list" and pos :: nat and out :: "int list"
  assume "pos < length input"
  moreover have "pos < snd (compress_step input pos)"
    by (simp add: compress_step_def split: prod.split)
  ultimately show "((input, snd (compress_step input pos), out @ fst (compress_step input pos)),
         (input, pos, out)) \<in> measure (\<lambda>(input, pos, output). length input - pos)"
    by simp
qed

declare compress_loop.simps [simp del]

definition size_header :: "nat \<Rightarrow> int list" where
  \<comment> \<open>The four pushes of the header; the shift of \<open>input.length\<close> applies \<open>ToInt32\<close> first.\<close>
  "size_header n =
     [drop_bit 24 (to_int32 (int n)) AND 0xFF,
      drop_bit 16 (to_int32 (int n)) AND 0xFF,
      drop_bit 8 (to_int32 (int n)) AND 0xFF,
      to_int32 (int n) AND 0xFF]"

definition compress :: "byte list \<Rightarrow> byte list" where
  \<comment> \<open>\<open>new Uint8Array(output)\<close> stores each number modulo 256.\<close>
  "compress input = map word_of_int (compress_loop input 0 (size_header (length input)))"

definition originalSize :: "byte list \<Rightarrow> int" where
  \<comment> \<open>\<open>(input[0] << 24) | (input[1] << 16) | (input[2] << 8) | input[3]\<close>\<close>
  "originalSize input =
     to_int32 (push_bit 24 (int_of_elem (typed_at input 0)))
       OR to_int32 (push_bit 16 (int_of_elem (typed_at input 1)))
       OR to_int32 (push_bit 8 (int_of_elem (typed_at input 2)))
       OR int_of_elem (typed_at input 3)"

definition array_at :: "'a option list \<Rightarrow> int \<Rightarrow> 'a option" where
  \<comment> \<open>Reading \<open>output[k]\<close> of a plain array: \<open>undefined\<close> for a negative or too large \<open>k\<close>.\<close>
  "array_at xs k = (if 0 \<le> k \<and> k < int (length xs) then xs ! nat k else None)"

definition copy_match :: "int \<Rightarrow> nat \<Rightarrow> byte option list \<Rightarrow> byte option list" where
  \<comment> \<open>\<open>for (i = 0; i < length; i++) output.push(output[matchStart + i])\<close>\<close>
  "copy_match matchStart len output =
     foldl (\<lambda>out i. out @ [array_at out (matchStart + int i)]) output [0 ..< len]"

function decompress_loop ::
  "byte list \<Rightarrow> int \<Rightarrow> nat \<Rightarrow> byte option list \<Rightarrow> byte option list" where
  "decompress_loop input osize pos output =
     (if pos < length input \<and> int (length output) < osize
      then (if input ! pos = 0xFF \<and> pos + 3 < length input
            then (let distance = push_bit 8 (uint (input ! (pos + 1))) OR uint (input ! (pos + 2));
                      len = unat (input ! (pos + 3));
                      matchStart = int (length output) - distance
                  in decompress_loop input osize (pos + 4) (copy_match matchStart len output))
            else decompress_loop input osize (pos + 1) (output @ [Some (input ! pos)]))
      else output)"
  by pat_completeness auto
termination
  by (relation "measure (\<lambda>(input, osize, pos, output). length input - pos)") auto

declare decompress_loop.simps [simp del]

definition slice0 :: "'a list \<Rightarrow> int \<Rightarrow> 'a list" where
  \<comment> \<open>\<open>xs.slice(0, e)\<close>: a negative end counts from the end of the array.\<close>
  "slice0 xs e = (if e < 0 then take (nat (int (length xs) + e)) xs else take (nat e) xs)"

definition decompress :: "byte list \<Rightarrow> byte list" where
  "decompress input =
     map to_uint8 (slice0 (decompress_loop input (originalSize input) 4 []) (originalSize input))"

subsection \<open>Tokens of a compressed stream\<close>

text \<open>
  The compressed stream as the specification describes it: after the header, a sequence
  of tokens, each a literal byte or a marker \<open>0xFF\<close> with a 16-bit distance and an 8-bit
  length. A byte \<open>0xFF\<close> with fewer than three bytes after it cannot be a marker and
  counts as a literal. A match token stands for \<open>l\<close> elements that repeat, with period
  \<open>d\<close>, the last \<open>d\<close> elements of the output so far (\<open>window\<close>); positions before the
  start of the output hold no element. \<open>decode_tokens\<close> takes tokens while the output is
  shorter than the declared length, \<open>all_output\<close> takes them all.
\<close>

datatype token = Literal byte | Match nat nat

function stream_tokens :: "byte list \<Rightarrow> token list" where
  "stream_tokens [] = []"
| "stream_tokens (b # rest) =
     (if b = 0xFF \<and> 3 \<le> length rest
      then Match (256 * unat (rest ! 0) + unat (rest ! 1)) (unat (rest ! 2))
             # stream_tokens (drop 3 rest)
      else Literal b # stream_tokens rest)"
  by pat_completeness auto
termination
  by (relation "measure length") auto

declare stream_tokens.simps(2) [simp del]

definition window :: "nat \<Rightarrow> byte option list \<Rightarrow> byte option list" where
  "window d out = replicate (d - length out) None @ drop (length out - d) out"

definition copied :: "nat \<Rightarrow> nat \<Rightarrow> byte option list \<Rightarrow> byte option list" where
  "copied d l out =
     (if d = 0 then replicate l None else map (\<lambda>k. window d out ! (k mod d)) [0 ..< l])"

fun token_output :: "token \<Rightarrow> byte option list \<Rightarrow> byte option list" where
  "token_output (Literal b) out = [Some b]"
| "token_output (Match d l) out = copied d l out"

fun decode_tokens :: "int \<Rightarrow> token list \<Rightarrow> byte option list \<Rightarrow> byte option list" where
  "decode_tokens n [] out = out"
| "decode_tokens n (t # ts) out =
     (if int (length out) < n then decode_tokens n ts (out @ token_output t out) else out)"

definition all_output :: "token list \<Rightarrow> byte option list" where
  "all_output ts = foldl (\<lambda>out t. out @ token_output t out) [] ts"

subsection \<open>Calibration\<close>







subsection \<open>Framing on the sender\<close>

text \<open>
  A JavaScript string is a sequence of 16-bit code units. A string of the characters
  \<open>'0'\<close> and \<open>'1'\<close> is a \<open>bool list\<close>, \<open>True\<close> for \<open>'1'\<close>.
\<close>

type_synonym code_unit = "16 word"

fun bin_digits :: "nat \<Rightarrow> bool list" where
  \<comment> \<open>\<open>n.toString(2)\<close>: most significant digit first, no leading zero, \<open>"0"\<close> for 0.\<close>
  "bin_digits n = (if n < 2 then [odd n] else bin_digits (n div 2) @ [odd n])"

declare bin_digits.simps [simp del]

definition padStart :: "nat \<Rightarrow> 'a \<Rightarrow> 'a list \<Rightarrow> 'a list" where
  "padStart n c s = replicate (n - length s) c @ s"

definition encode_char :: "code_unit \<Rightarrow> bool list" where
  \<comment> \<open>\<open>message.charCodeAt(i).toString(2).padStart(8, '0')\<close>\<close>
  "encode_char c = padStart 8 False (bin_digits (unat c))"

definition encodeToBinary :: "code_unit list \<Rightarrow> bool list" where
  "encodeToBinary message = foldl (\<lambda>binary c. binary @ encode_char c) [] message"




text \<open>
  \<open>transmitBinaryFSK\<close>: the bits go round-robin to \<open>NUM_CHANNELS\<close> streams, the
  shorter streams are padded with \<open>'0'\<close>, and slot \<open>symbolIdx\<close> plays on channel \<open>ch\<close>
  the tone selected by \<open>streams[ch][symbolIdx]\<close>. \<open>fsk_slots\<close> is the list of slots, each
  the list of these bits in ascending channel order; the tones themselves are not
  modelled.
\<close>

definition distribute :: "nat \<Rightarrow> bool list \<Rightarrow> bool list list" where
  "distribute N binaryString =
     foldl (\<lambda>streams i. streams[i mod N := streams ! (i mod N) @ [binaryString ! i] ])
       (replicate N []) [0 ..< length binaryString]"

definition maxLen :: "bool list list \<Rightarrow> nat" where
  \<comment> \<open>\<open>Math.max(...streams.map(s => s.length))\<close>, for at least one stream.\<close>
  "maxLen streams = foldl max 0 (map length streams)"

definition pad_streams :: "bool list list \<Rightarrow> bool list list" where
  "pad_streams streams = map (\<lambda>s. s @ replicate (maxLen streams - length s) False) streams"

definition fsk_slots :: "nat \<Rightarrow> bool list \<Rightarrow> bool list list" where
  "fsk_slots N binaryString =
     (let streams0 = distribute N binaryString;
          longest = maxLen streams0;
          streams = pad_streams streams0
      in map (\<lambda>symbolIdx. map (\<lambda>ch. streams ! ch ! symbolIdx) [0 ..< N])
           [0 ..< longest])"

subsection \<open>Synchroniser of the receiver\<close>


definition append_bits :: "bool list \<Rightarrow> bool option list \<Rightarrow> bool list" where
  \<comment> \<open>\<open>bits.forEach(bit => { if (bit !== null) bitStream += bit })\<close>\<close>
  "append_bits stream bits = foldl (\<lambda>s bit. case bit of None \<Rightarrow> s | Some b \<Rightarrow> s @ [b]) stream bits"



definition parse_bits :: "bool list \<Rightarrow> nat" where
  \<comment> \<open>\<open>parseInt(byteBits, 2)\<close> on binary digits.\<close>
  "parse_bits bits = foldl (\<lambda>acc b. 2 * acc + (if b then 1 else 0)) 0 bits"

definition decode_byte :: "bool list \<Rightarrow> char" where
  \<comment> \<open>\<open>String.fromCharCode(parseInt(byteBits, 2))\<close>\<close>
  "decode_byte byteBits = char_of (parse_bits byteBits)"








function regroup :: "bool list \<Rightarrow> string" where
  \<comment> \<open>The characters that the loop decodes from a bit stream, 8 bits each.\<close>
  "regroup bits =
     (if length bits \<ge> 8 then decode_byte (take 8 bits) # regroup (drop 8 bits) else [])"
  by pat_completeness auto
termination
  by (relation "measure length") auto

declare regroup.simps [simp del]

definition code_units :: "string \<Rightarrow> code_unit list" where
  \<comment> \<open>A string of characters below 256 as code units.\<close>
  "code_units s = map (\<lambda>c. word_of_nat (of_char c)) s"

subsection \<open>String operations of the packet handler\<close>

definition js_space :: "char \<Rightarrow> bool" where
  \<comment> \<open>The white space and line terminator characters with a code below 256.\<close>
  "js_space c = (let n = (of_char c :: nat)
                 in n = 9 \<or> n = 10 \<or> n = 11 \<or> n = 12 \<or> n = 13 \<or> n = 32 \<or> n = 160)"

definition trim :: "string \<Rightarrow> string" where
  "trim s = rev (dropWhile js_space (rev (dropWhile js_space s)))"

definition startsWith :: "string \<Rightarrow> string \<Rightarrow> bool" where
  "startsWith s pre = (take (length pre) s = pre)"

fun split_on :: "char \<Rightarrow> string \<Rightarrow> string list" where
  \<comment> \<open>\<open>s.split(c)\<close> for a one-character separator; the result is never empty.\<close>
  "split_on c [] = [ [] ]"
| "split_on c (x # xs) =
     (if x = c then [] # split_on c xs
      else (case split_on c xs of [] \<Rightarrow> [ [x] ] | p # ps \<Rightarrow> (x # p) # ps))"

fun join :: "string \<Rightarrow> string list \<Rightarrow> string" where
  "join sep [] = []"
| "join sep [p] = p"
| "join sep (p # q # ps) = p @ sep @ join sep (q # ps)"

definition digit_val :: "char \<Rightarrow> nat option" where
  "digit_val c = (let n = (of_char c :: nat)
                  in if 48 \<le> n \<and> n \<le> 57 then Some (n - 48)
                     else if 97 \<le> n \<and> n \<le> 122 then Some (n - 87)
                     else if 65 \<le> n \<and> n \<le> 90 then Some (n - 55)
                     else None)"

definition is_digit :: "nat \<Rightarrow> char \<Rightarrow> bool" where
  "is_digit R c = (case digit_val c of None \<Rightarrow> False | Some v \<Rightarrow> v < R)"

text \<open>
  \<open>parseInt(s, radix)\<close> as the integer that the numeral denotes; radix 0 stands for a
  call without radix, \<open>None\<close> for \<open>NaN\<close>. The runtime returns the double nearest to this
  integer, which is the integer itself below \<open>2^53\<close>. The receiver applies it with radix 2
  to groups of 8 characters, where the two agree. The call on the index field of a data
  packet, whose numeral is not bounded, is a parameter of the model (see \<open>runtime\<close>).
\<close>

definition js_parseInt :: "string \<Rightarrow> nat \<Rightarrow> int option" where
  "js_parseInt s radix =
     (let s1 = dropWhile js_space s;
          sign = (if s1 \<noteq> [] \<and> hd s1 = CHR ''-'' then - 1 else 1 :: int);
          s2 = (if s1 \<noteq> [] \<and> (hd s1 = CHR ''+'' \<or> hd s1 = CHR ''-'') then tl s1 else s1)
      in if radix \<noteq> 0 \<and> (radix < 2 \<or> radix > 36) then None
         else (let stripPrefix = (radix = 0 \<or> radix = 16);
                   hex = (stripPrefix \<and> (startsWith s2 ''0x'' \<or> startsWith s2 ''0X''));
                   R = (if hex then 16 else if radix = 0 then 10 else radix);
                   s3 = (if hex then drop 2 s2 else s2);
                   Z = takeWhile (is_digit R) s3
               in if Z = [] then None
                  else Some (sign * foldl (\<lambda>acc c. acc * int R + int (the (digit_val c))) 0 Z)))"

function decodeBinaryToData :: "string \<Rightarrow> byte list" where
  \<comment> \<open>\<open>BinaryEncoder.decodeBinaryToData\<close>; a \<open>NaN\<close> is stored as 0 in the \<open>Uint8Array\<close>.\<close>
  "decodeBinaryToData binary =
     (if length binary \<ge> 8
      then (case js_parseInt (take 8 binary) 2 of None \<Rightarrow> 0 | Some v \<Rightarrow> word_of_int v)
             # decodeBinaryToData (drop 8 binary)
      else [])"
  by pat_completeness auto
termination
  by (relation "measure length") auto

declare decodeBinaryToData.simps [simp del]

subsection \<open>Receiver session\<close>

text \<open>
  The metadata object, with the fields and types the sender serialises; a JSON text of
  another shape is outside the model. \<open>JSON.parse\<close>
  and \<open>atob\<close> belong to the runtime and are parameters: \<open>None\<close> stands for the exception
  they raise (\<open>SyntaxError\<close>, \<open>InvalidCharacterError\<close>), which the handlers catch and
  log. The \<open>Map\<close> of received chunks is a list of pairs in insertion order. Log lines,
  the progress display and the transfer-rate statistics are left out.

  The keys of the \<open>Map\<close> are numbers. \<open>parseInt(parts[0])\<close> returns a double: an integer,
  rounded when the numeral is beyond \<open>2^53\<close> (how, is in part left to the runtime), or an
  infinity when it is very long, or \<open>NaN\<close>. So this call is a parameter too, with \<open>None\<close>
  for \<open>NaN\<close>; \<open>Finite k\<close> is the double of value \<open>k\<close>, and \<open>-0\<close> and \<open>0\<close> are one key.
\<close>

datatype js_number = Finite int | PlusInfinity | MinusInfinity

record file_metadata =
  filename :: string
  size_meta :: nat
  originalSize_meta :: nat
  compressed :: bool
  checksum :: int
  crc :: int
  chunks :: nat
  encoding :: string

record runtime =
  JSON_parse :: "string \<Rightarrow> file_metadata option"
  atob :: "string \<Rightarrow> string option"
  parseInt :: "string \<Rightarrow> js_number option"

datatype integrity = Verified | ChecksumMismatch

record receiver =
  receivedChunks :: "(js_number \<times> string) list"
  expectedChunks :: nat
  fileMetadata :: "file_metadata option"
  receivedData :: "byte list option"
  integrityStatus :: "integrity option"
  isListening :: bool

definition has_chunk :: "receiver \<Rightarrow> js_number \<Rightarrow> bool" where
  \<comment> \<open>\<open>receivedChunks.has(i)\<close>\<close>
  "has_chunk st i = (map_of (receivedChunks st) i \<noteq> None)"

definition decode_binary_chunks :: "receiver \<Rightarrow> byte list" where
  "decode_binary_chunks st =
     concat (map (\<lambda>i. case map_of (receivedChunks st) (Finite (int i)) of
                         Some binaryStr \<Rightarrow> decodeBinaryToData binaryStr
                       | None \<Rightarrow> [])
               [0 ..< expectedChunks st])"

definition decode_base64_chunks :: "runtime \<Rightarrow> receiver \<Rightarrow> byte list option" where
  \<comment> \<open>\<open>None\<close> when \<open>atob\<close> raises on one of the chunks.\<close>
  "decode_base64_chunks rt st =
     map_option (map (\<lambda>c. word_of_nat (of_char c)))
       (foldl (\<lambda>acc i. case acc of
                  None \<Rightarrow> None
                | Some fileData \<Rightarrow>
                    (case map_of (receivedChunks st) (Finite (int i)) of
                       None \<Rightarrow> Some fileData
                     | Some chunk \<Rightarrow> map_option (\<lambda>t. fileData @ t) (atob rt chunk)))
          (Some []) [0 ..< expectedChunks st])"

definition verify_integrity :: "file_metadata \<Rightarrow> byte list \<Rightarrow> integrity" where
  \<comment> \<open>\<open>if (fileMetadata.checksum && fileMetadata.checksum !== receivedChecksum)\<close>\<close>
  "verify_integrity meta bytes =
     (if checksum meta \<noteq> 0 \<and> checksum meta \<noteq> calculateChecksum bytes
      then ChecksumMismatch else Verified)"

definition reconstruct_bytes :: "runtime \<Rightarrow> receiver \<Rightarrow> byte list option" where
  \<comment> \<open>The bytes of the artifact; \<open>None\<close> when an exception ends the \<open>try\<close> block.\<close>
  "reconstruct_bytes rt st =
     (case fileMetadata st of
        None \<Rightarrow> None
      | Some meta \<Rightarrow>
          map_option (\<lambda>bytes. if compressed meta then decompress bytes else bytes)
            (if encoding meta = ''binary'' then Some (decode_binary_chunks st)
             else decode_base64_chunks rt st))"

definition reconstructFile :: "runtime \<Rightarrow> receiver \<Rightarrow> receiver" where
  "reconstructFile rt st =
     (case fileMetadata st of
        None \<Rightarrow> st
      | Some meta \<Rightarrow>
          (case reconstruct_bytes rt st of
             None \<Rightarrow> st
           | Some bytes \<Rightarrow>
               st\<lparr>receivedData := Some bytes,
                  integrityStatus := Some (verify_integrity meta bytes),
                  isListening := False\<rparr>))"

definition data_fields :: "runtime \<Rightarrow> string \<Rightarrow> (js_number \<times> string) option" where
  \<comment> \<open>The chunk index and the payload that the \<open>DATA:\<close> branch reads from a packet.\<close>
  "data_fields rt packet =
     (let parts = split_on CHR '':'' (drop 5 packet)
      in if length parts \<ge> 2
         then (case parseInt rt (hd parts) of
                 None \<Rightarrow> None
               | Some chunkIdx \<Rightarrow> Some (chunkIdx, join '':'' (tl parts)))
         else None)"

definition processPacket :: "runtime \<Rightarrow> string \<Rightarrow> receiver \<Rightarrow> receiver" where
  "processPacket rt packet0 st =
     (let packet = trim (filter (\<lambda>c. c \<noteq> CHR 0x00) packet0)
      in if packet = [] \<or> length packet < 5 then st
         else if startsWith packet ''META:''
         then (case JSON_parse rt (drop 5 packet) of
                 None \<Rightarrow> st
               | Some meta \<Rightarrow> st\<lparr>fileMetadata := Some meta, expectedChunks := chunks meta\<rparr>)
         else if startsWith packet ''DATA:''
         then (case data_fields rt packet of
                 None \<Rightarrow> st
               | Some (chunkIdx, encodedData) \<Rightarrow>
                   if \<not> has_chunk st chunkIdx
                   then st\<lparr>receivedChunks := receivedChunks st @ [(chunkIdx, encodedData)]\<rparr>
                   else st)
         else if startsWith packet ''END:''
         then (if receivedChunks st \<noteq> [] then reconstructFile rt st else st)
         else st)"

definition packet_index :: "runtime \<Rightarrow> string \<Rightarrow> js_number option" where
  \<comment> \<open>The chunk index a delivered packet carries, if it is a \<open>DATA:\<close> packet with one.\<close>
  "packet_index rt packet0 =
     (let packet = trim (filter (\<lambda>c. c \<noteq> CHR 0x00) packet0)
      in if length packet \<ge> 5 \<and> startsWith packet ''DATA:''
         then map_option fst (data_fields rt packet) else None)"

definition packet_payload :: "runtime \<Rightarrow> string \<Rightarrow> string" where
  "packet_payload rt packet0 =
     (case data_fields rt (trim (filter (\<lambda>c. c \<noteq> CHR 0x00) packet0)) of
        None \<Rightarrow> [] | Some (_, encodedData) \<Rightarrow> encodedData)"

definition deliver_all :: "runtime \<Rightarrow> string list \<Rightarrow> receiver \<Rightarrow> receiver" where
  \<comment> \<open>The packets of a session, handled in the order of delivery.\<close>
  "deliver_all rt packets st = foldl (\<lambda>s p. processPacket rt p s) st packets"

definition initial_receiver :: receiver where
  \<comment> \<open>The state set up by \<open>startListening\<close>.\<close>
  "initial_receiver =
     \<lparr>receivedChunks = [], expectedChunks = 0, fileMetadata = None, receivedData = None,
      integrityStatus = None, isListening = True\<rparr>"

subsection \<open>Runs and example inputs\<close>


definition ideal_channel :: "bool list list \<Rightarrow> bool option list list" where
  \<comment> \<open>Every channel of every slot is detected with the bit that was sent.\<close>
  "ideal_channel slots = map (map Some) slots"

definition null_runtime :: runtime where
  \<comment> \<open>A runtime for the examples: \<open>JSON.parse\<close> and \<open>atob\<close> raise on every input, and
    \<open>parseInt\<close> reads a numeral exactly, which is what the runtime does below \<open>2^53\<close>.\<close>
  "null_runtime =
     \<lparr>JSON_parse = (\<lambda>s. None), atob = (\<lambda>s. None),
      parseInt = (\<lambda>s. map_option Finite (js_parseInt s 0))\<rparr>"

function excess_bits :: "int \<Rightarrow> nat" where
  \<comment> \<open>The number of binary digits beyond 53.\<close>
  "excess_bits k = (if k < 2 ^ 53 then 0 else Suc (excess_bits (k div 2)))"
  by pat_completeness auto

termination
  by (relation "measure nat") auto

declare excess_bits.simps [simp del]

definition round_double :: "int \<Rightarrow> int" where
  \<comment> \<open>The nearest integer with at most 53 significant bits, ties to the even significand;
    for \<open>k \<ge> 0\<close>.\<close>
  "round_double k =
     (let e = excess_bits k; q = k div 2 ^ e; r = k mod 2 ^ e
      in (if 2 * r > 2 ^ e \<or> (2 * r = 2 ^ e \<and> odd q) then q + 1 else q) * 2 ^ e)"

definition number_of_int :: "int \<Rightarrow> js_number" where
  \<comment> \<open>The double nearest to an integer.\<close>
  "number_of_int k =
     (let m = round_double \<bar>k\<bar>
      in if m \<ge> 2 ^ 1024 then (if k < 0 then MinusInfinity else PlusInfinity)
         else Finite (sgn k * m))"

definition rounding_runtime :: runtime where
  \<comment> \<open>As \<open>null_runtime\<close>, with a \<open>parseInt\<close> that rounds the numeral to the nearest double.\<close>
  "rounding_runtime =
     \<lparr>JSON_parse = (\<lambda>s. None), atob = (\<lambda>s. None),
      parseInt = (\<lambda>s. map_option number_of_int (js_parseInt s 0))\<rparr>"


subsection \<open>Auxiliary notions for the interleaving\<close>

definition stream_len :: "nat \<Rightarrow> nat \<Rightarrow> nat \<Rightarrow> nat" where
  \<comment> \<open>The number of positions below \<open>n\<close> that go to channel \<open>c\<close> of \<open>N\<close>.\<close>
  "stream_len N c n = n div N + (if c < n mod N then 1 else 0)"

definition distribute_upto :: "nat \<Rightarrow> bool list \<Rightarrow> nat \<Rightarrow> bool list list" where
  \<comment> \<open>The streams after the first \<open>n\<close> rounds of the distributing loop.\<close>
  "distribute_upto N s n =
     foldl (\<lambda>streams i. streams[i mod N := streams ! (i mod N) @ [s ! i] ])
       (replicate N []) [0 ..< n]"

section \<open>Properties\<close>

subsection \<open>Integrity sums\<close>

lemma checksum_foldl:
  assumes "0 \<le> a" and "a < 2 ^ 16"
  shows "foldl (\<lambda>checksum b. (checksum + uint b) AND 0xFFFF) a data
         = (a + (\<Sum>b\<leftarrow>data. uint b)) mod 2 ^ 16"
  using assms
proof (induction data arbitrary: a)
  case Nil
  then show ?case by simp
next
  case (Cons x xs)
  have m: "(a + uint x) AND 0xFFFF = (a + uint x) mod 2 ^ 16"
    using take_bit_eq_mask [of 16 "a + uint x"]
    by (simp add: take_bit_eq_mod mask_eq_exp_minus_1)
  have "foldl (\<lambda>checksum b. (checksum + uint b) AND 0xFFFF) ((a + uint x) mod 2 ^ 16) xs
        = ((a + uint x) mod 2 ^ 16 + (\<Sum>b\<leftarrow>xs. uint b)) mod 2 ^ 16"
    by (rule Cons.IH) simp_all
  then show ?case
    using m by (simp only: foldl_Cons sum_list.Cons list.map mod_add_left_eq add.assoc)
qed

text \<open>
  C2, as the code has it. The additive checksum is the sum of the bytes modulo \<open>2^16\<close>
  for every byte sequence. For the bytes of "Hello" the sum is \<open>0x01F4\<close> and the CRC is
  \<open>0xF377\<close>; the CRC of the empty sequence is the initial value \<open>0xFFFF\<close>.
\<close>

theorem C2_checksum_and_crc_values:
  "(\<forall>b. calculateChecksum b = (\<Sum>x\<leftarrow>b. uint x) mod 2 ^ 16)
   \<and> calculateChecksum [0x48, 0x65, 0x6C, 0x6C, 0x6F] = 0x01F4
   \<and> crc16 [0x48, 0x65, 0x6C, 0x6C, 0x6F] = 0xF377
   \<and> crc16 [] = 0xFFFF"
proof -
  have sum: "calculateChecksum b = (\<Sum>x\<leftarrow>b. uint x) mod 2 ^ 16" for b
    using checksum_foldl [of 0 b] by (simp add: calculateChecksum_def)
  have hello: "calculateChecksum [0x48, 0x65, 0x6C, 0x6C, 0x6F] = 0x01F4"
    by code_simp
  have crc: "crc16 [0x48, 0x65, 0x6C, 0x6C, 0x6F] = 0xF377"
    by code_simp
  have empty: "crc16 [] = 0xFFFF"
    by (simp add: crc16_def)
  from sum hello crc empty show ?thesis by blast
qed

text \<open>
  C2, as the specification states it, fails on both seed values: the checksum of "Hello"
  is not \<open>0x01FE\<close> and its CRC is not \<open>0xD26E\<close>.
\<close>

theorem C2_hello_values_counterexample:
  "calculateChecksum [0x48, 0x65, 0x6C, 0x6C, 0x6F] \<noteq> 0x01FE
   \<and> crc16 [0x48, 0x65, 0x6C, 0x6C, 0x6F] \<noteq> 0xD26E"
proof -
  have "calculateChecksum [0x48, 0x65, 0x6C, 0x6C, 0x6F] = 0x01F4"
    by code_simp
  moreover have "crc16 [0x48, 0x65, 0x6C, 0x6C, 0x6F] = 0xF377"
    by code_simp
  ultimately show ?thesis by simp
qed

subsection \<open>LZCompressor: the match search\<close>

lemma match_length_mono: "len \<le> match_length input i pos len"
proof (induction input i pos len rule: match_length.induct)
  case (1 input i pos len)
  show ?case
  proof (cases "len < lookaheadSize \<and> pos + len < length input
         \<and> input ! (i + len) = input ! (pos + len)")
    case True
    with "1.IH" have "len + 1 \<le> match_length input i pos (len + 1)" by blast
    with True show ?thesis by (subst match_length.simps) simp
  next
    case False
    then show ?thesis by (subst match_length.simps) auto
  qed
qed

lemma match_length_agrees:
  "len \<le> k \<Longrightarrow> k < match_length input i pos len \<Longrightarrow> input ! (i + k) = input ! (pos + k)"
proof (induction input i pos len rule: match_length.induct)
  case (1 input i pos len)
  show ?case
  proof (cases "len < lookaheadSize \<and> pos + len < length input
         \<and> input ! (i + len) = input ! (pos + len)")
    case True
    then have eq: "match_length input i pos len = match_length input i pos (len + 1)"
      by (subst match_length.simps) simp
    show ?thesis
    proof (cases "k = len")
      case True
      with \<open>len < lookaheadSize \<and> _\<close> show ?thesis by simp
    next
      case False
      with "1.prems" eq True "1.IH" show ?thesis by auto
    qed
  next
    case False
    then have "match_length input i pos len = len"
      by (subst match_length.simps) auto
    with "1.prems" show ?thesis by simp
  qed
qed

lemma match_length_bounded:
  "len \<le> lookaheadSize \<Longrightarrow> pos + len \<le> length input \<Longrightarrow>
   match_length input i pos len \<le> lookaheadSize
   \<and> pos + match_length input i pos len \<le> length input"
proof (induction input i pos len rule: match_length.induct)
  case (1 input i pos len)
  show ?case
  proof (cases "len < lookaheadSize \<and> pos + len < length input
         \<and> input ! (i + len) = input ! (pos + len)")
    case True
    then have eq: "match_length input i pos len = match_length input i pos (len + 1)"
      by (subst match_length.simps) simp
    from True "1.IH" show ?thesis unfolding eq by simp
  next
    case False
    then have "match_length input i pos len = len"
      by (subst match_length.simps) auto
    with "1.prems" show ?thesis by simp
  qed
qed

lemma match_length_stops:
  "m = match_length input i pos len \<Longrightarrow> m < lookaheadSize \<Longrightarrow> pos + m < length input \<Longrightarrow>
   input ! (i + m) \<noteq> input ! (pos + m)"
proof (induction input i pos len arbitrary: m rule: match_length.induct)
  case (1 input i pos len)
  show ?case
  proof (cases "len < lookaheadSize \<and> pos + len < length input
         \<and> input ! (i + len) = input ! (pos + len)")
    case True
    then have eq: "match_length input i pos len = match_length input i pos (len + 1)"
      by (subst match_length.simps) simp
    from True "1.IH" "1.prems" show ?thesis unfolding eq by blast
  next
    case False
    then have "match_length input i pos len = len"
      by (subst match_length.simps) auto
    with "1.prems" False show ?thesis by auto
  qed
qed

lemma search_step_pair:
  "search_step input pos (L0, D0) x =
     (if L0 < match_length input x pos 0 then (match_length input x pos 0, pos - x)
      else (L0, D0))"
  by (simp add: search_step_def Let_def)

lemma search_foldl:
  assumes "foldl (search_step input pos) (0, 0) xs = (L, D)"
  shows "(\<forall>i\<in>set xs. match_length input i pos 0 \<le> L)
         \<and> (0 < L \<longrightarrow> (\<exists>ys i zs. xs = ys @ i # zs \<and> match_length input i pos 0 = L
                \<and> D = pos - i \<and> (\<forall>j\<in>set ys. match_length input j pos 0 < L)))"
  using assms
proof (induction xs arbitrary: L D rule: rev_induct)
  case Nil
  then show ?case by simp
next
  case (snoc x xs)
  obtain L0 D0 where f: "foldl (search_step input pos) (0, 0) xs = (L0, D0)"
    by (cases "foldl (search_step input pos) (0, 0) xs")
  note IH = snoc.IH [OF f]
  from snoc.prems f have stepx: "search_step input pos (L0, D0) x = (L, D)"
    by simp
  show ?case
  proof (cases "match_length input x pos 0 > L0")
    case True
    with stepx have LD: "L = match_length input x pos 0" "D = pos - x"
      by (simp_all add: search_step_pair)
    have "\<forall>j\<in>set xs. match_length input j pos 0 < L"
      using IH True LD by auto
    then show ?thesis using LD by auto
  next
    case False
    with stepx have LD: "L = L0" "D = D0"
      by (simp_all add: search_step_pair)
    show ?thesis
    proof (intro conjI impI)
      show "\<forall>i\<in>set (xs @ [x]). match_length input i pos 0 \<le> L"
        using IH False LD by auto
    next
      assume "0 < L"
      with IH LD obtain ys i zs where
        "xs = ys @ i # zs" "match_length input i pos 0 = L" "D = pos - i"
        "\<forall>j\<in>set ys. match_length input j pos 0 < L"
        by blast
      then have "xs @ [x] = ys @ i # (zs @ [x])" by simp
      with \<open>match_length input i pos 0 = L\<close> \<open>D = pos - i\<close>
        \<open>\<forall>j\<in>set ys. match_length input j pos 0 < L\<close>
      show "\<exists>ys i zs. xs @ [x] = ys @ i # zs \<and> match_length input i pos 0 = L
              \<and> D = pos - i \<and> (\<forall>j\<in>set ys. match_length input j pos 0 < L)"
        by blast
    qed
  qed
qed

lemma upt_split_before:
  assumes "[a ..< b] = ys @ i # zs"
  shows "a \<le> i \<and> i < b \<and> set ys = {a ..< i}"
proof -
  have "i \<in> set [a ..< b]" using assms by simp
  then have ab: "a \<le> i" "i < b" by simp_all
  then have "[a ..< b] = [a ..< i] @ i # [Suc i ..< b]"
    by (metis le_add_diff_inverse less_imp_le_nat upt_add_eq_append upt_conv_Cons)
  moreover have "length ys = i - a"
  proof -
    have "[a ..< b] ! length ys = i" using assms by simp
    moreover have "length ys < length [a ..< b]" using assms by (metis length_append length_Cons less_add_Suc1 add_Suc_right)
    ultimately show ?thesis by simp
  qed
  ultimately have "ys = [a ..< i]"
    using assms by (metis append_eq_append_conv length_upt)
  then show ?thesis using ab by simp
qed

lemma match_length_le_lookahead:
  "len \<le> lookaheadSize \<Longrightarrow> match_length input i pos len \<le> lookaheadSize"
proof (induction input i pos len rule: match_length.induct)
  case (1 input i pos len)
  show ?case
  proof (cases "len < lookaheadSize \<and> pos + len < length input
         \<and> input ! (i + len) = input ! (pos + len)")
    case True
    then have "match_length input i pos len = match_length input i pos (len + 1)"
      by (subst match_length.simps) simp
    with True "1.IH" show ?thesis by simp
  next
    case False
    then have "match_length input i pos len = len"
      by (subst match_length.simps) auto
    with "1.prems" show ?thesis by simp
  qed
qed

lemma find_match_props:
  assumes "find_match input pos = (L, D)" and "0 < L"
  shows "1 \<le> D" and "D \<le> pos" and "D \<le> windowSize" and "L \<le> lookaheadSize"
    and "pos \<le> length input \<Longrightarrow> pos + L \<le> length input"
    and "\<forall>k<L. input ! (pos - D + k) = input ! (pos + k)"
proof -
  from assms(1) have f: "foldl (search_step input pos) (0, 0) [searchStart pos ..< pos] = (L, D)"
    by (simp add: find_match_def)
  from search_foldl [OF f] assms(2) obtain ys i zs where
    split: "[searchStart pos ..< pos] = ys @ i # zs" and
    i: "match_length input i pos 0 = L" "D = pos - i"
    by blast
  from upt_split_before [OF split] have range: "searchStart pos \<le> i" "i < pos"
    by simp_all
  have "pos - windowSize \<le> searchStart pos" by (simp add: searchStart_def)
  with range i have D: "1 \<le> D" "D \<le> pos" "D \<le> windowSize" by simp_all
  have b: "match_length input i pos 0 \<le> lookaheadSize"
    "pos \<le> length input \<longrightarrow> pos + match_length input i pos 0 \<le> length input"
    using match_length_le_lookahead [of 0 input i pos] match_length_bounded [of 0 pos input i]
    by simp_all
  have a: "input ! (pos - D + k) = input ! (pos + k)" if "k < L" for k
  proof -
    from range i have "pos - D = i" by simp
    with match_length_agrees [of 0 k input i pos] that i show ?thesis by simp
  qed
  from D show "1 \<le> D" and "D \<le> pos" and "D \<le> windowSize" by simp_all
  from b i show "L \<le> lookaheadSize" by simp
  from b i show "pos + L \<le> length input" if "pos \<le> length input"
    using that by simp
  from a show "\<forall>k<L. input ! (pos - D + k) = input ! (pos + k)" by blast
qed

lemma match_length_ge:
  "len \<le> l \<Longrightarrow> l \<le> lookaheadSize \<Longrightarrow> pos + l \<le> length input \<Longrightarrow>
   \<forall>k<l. input ! (i + k) = input ! (pos + k) \<Longrightarrow>
   l \<le> match_length input i pos len"
proof (induction input i pos len rule: match_length.induct)
  case (1 input i pos len)
  show ?case
  proof (cases "len = l")
    case True
    with match_length_mono [of len input i pos] show ?thesis by simp
  next
    case False
    with "1.prems"(1) have lt: "len < l" by simp
    with "1.prems" have cond: "len < lookaheadSize \<and> pos + len < length input
         \<and> input ! (i + len) = input ! (pos + len)"
      by simp
    then have "match_length input i pos len = match_length input i pos (len + 1)"
      by (subst match_length.simps) simp
    moreover from lt have "len + 1 \<le> l" by simp
    ultimately show ?thesis using "1.IH" [OF cond _ "1.prems"(2,3,4)] by simp
  qed
qed

text \<open>
  C3, as the code has it. Take a cursor position at which some position of the preceding
  4096 bytes starts a run of at least 3 bytes equal to the bytes at the cursor. Then the
  step emits the marker quadruplet for a pair \<open>(D, L)\<close> such that: the \<open>L\<close> bytes at
  distance \<open>D\<close> before the cursor equal the \<open>L\<close> bytes at the cursor; \<open>L\<close> is between 3
  and the lookahead of 18 and stays inside the input; \<open>D\<close> is between 1 and 4096; no
  position of the window has a longer run of equal bytes (up to the lookahead and the end
  of the input); and every window position with a run of \<open>L\<close> equal bytes is at a
  distance of at most \<open>D\<close>. So ties go to the farthest position: the scan runs upwards
  through the window and replaces its candidate only on a strictly longer match.
\<close>

theorem C3_longest_match_farthest_on_ties:
  assumes "pos - 4096 \<le> i" and "i < pos" and "pos + 3 \<le> length input"
    and "\<forall>k<3. input ! (i + k) = input ! (pos + k)"
  shows "\<exists>L D. compress_step input pos
           = ([0xFF, drop_bit 8 (int D) AND 0xFF, int D AND 0xFF, int L], pos + L)
         \<and> 3 \<le> L \<and> L \<le> 18 \<and> pos + L \<le> length input
         \<and> 1 \<le> D \<and> D \<le> pos \<and> D \<le> 4096
         \<and> (\<forall>k<L. input ! (pos - D + k) = input ! (pos + k))
         \<and> (\<forall>j l. pos - 4096 \<le> j \<and> j < pos \<and> l \<le> 18 \<and> pos + l \<le> length input
                \<and> (\<forall>k<l. input ! (j + k) = input ! (pos + k))
                \<longrightarrow> l \<le> L \<and> (l = L \<longrightarrow> pos - j \<le> D))"
proof -
  obtain L D where fm: "find_match input pos = (L, D)"
    by (cases "find_match input pos")
  then have f: "foldl (search_step input pos) (0, 0) [searchStart pos ..< pos] = (L, D)"
    by (simp add: find_match_def)
  have start: "searchStart pos = pos - 4096"
    by (simp add: searchStart_def windowSize_def)
  from search_foldl [OF f]
  have le: "\<forall>i\<in>set [searchStart pos ..< pos]. match_length input i pos 0 \<le> L"
    and ex: "0 < L \<longrightarrow> (\<exists>ys i zs. [searchStart pos ..< pos] = ys @ i # zs
                \<and> match_length input i pos 0 = L
                \<and> D = pos - i \<and> (\<forall>j\<in>set ys. match_length input j pos 0 < L))"
    by blast+
  have reach: "l \<le> match_length input j pos 0"
    if "l \<le> 18" "pos + l \<le> length input" "\<forall>k<l. input ! (j + k) = input ! (pos + k)"
    for j l
    using that by (intro match_length_ge) (simp_all add: lookaheadSize_def)
  have bound: "l \<le> L"
    if "pos - 4096 \<le> j" "j < pos" "l \<le> 18" "pos + l \<le> length input"
      "\<forall>k<l. input ! (j + k) = input ! (pos + k)" for j l
  proof -
    from that(1,2) have "j \<in> set [searchStart pos ..< pos]" by (simp add: start)
    with le have "match_length input j pos 0 \<le> L" by blast
    with reach [OF that(3,4,5)] show ?thesis by simp
  qed
  from bound [OF assms(1,2) _ assms(3,4)] have L3: "3 \<le> L" by simp
  then have "0 < L" by simp
  note props = find_match_props [OF fm this]
  from \<open>0 < L\<close> ex obtain ys k zs where
    split: "[searchStart pos ..< pos] = ys @ k # zs" and
    k: "match_length input k pos 0 = L" "D = pos - k" and
    before: "\<forall>j\<in>set ys. match_length input j pos 0 < L"
    by blast
  from upt_split_before [OF split]
  have krange: "searchStart pos \<le> k" "k < pos" and ys: "set ys = {searchStart pos ..< k}"
    by simp_all
  have step: "compress_step input pos
      = ([0xFF, drop_bit 8 (int D) AND 0xFF, int D AND 0xFF, int L], pos + L)"
    using fm L3 by (simp add: compress_step_def)
  from assms(3) have "pos \<le> length input" by simp
  with props(5) have fits: "pos + L \<le> length input" by simp
  from props(4) have L18: "L \<le> 18" by (simp add: lookaheadSize_def)
  from props(3) have D4096: "D \<le> 4096" by (simp add: windowSize_def)
  have far: "pos - j \<le> D"
    if "pos - 4096 \<le> j" "j < pos" "\<forall>k<L. input ! (j + k) = input ! (pos + k)" for j
  proof -
    from reach [OF L18 fits that(3)] have "L \<le> match_length input j pos 0" .
    then have "j \<notin> set ys" using before by auto
    with ys that(1,2) have "k \<le> j" by (simp add: start)
    with k show ?thesis by simp
  qed
  have all: "\<forall>j l. pos - 4096 \<le> j \<and> j < pos \<and> l \<le> 18 \<and> pos + l \<le> length input
                \<and> (\<forall>k<l. input ! (j + k) = input ! (pos + k))
                \<longrightarrow> l \<le> L \<and> (l = L \<longrightarrow> pos - j \<le> D)"
    using bound far by blast
  from step L3 L18 fits props(1,2) D4096 props(6) all show ?thesis by blast
qed

theorem C3_longest_match_witness:
  "(8::nat) - 4096 \<le> 4 \<and> (4::nat) < 8
   \<and> 8 + 3 \<le> length [1, 2, 3, 9, 1, 2, 3, 8, 1, 2, 3 :: byte]
   \<and> (\<exists>L D. compress_step [1, 2, 3, 9, 1, 2, 3, 8, 1, 2, 3] 8
           = ([0xFF, drop_bit 8 (int D) AND 0xFF, int D AND 0xFF, int L], 8 + L)
         \<and> 3 \<le> L \<and> L \<le> 18 \<and> 8 + L \<le> length [1, 2, 3, 9, 1, 2, 3, 8, 1, 2, 3 :: byte]
         \<and> 1 \<le> D \<and> D \<le> 8 \<and> D \<le> 4096
         \<and> (\<forall>k<L. [1, 2, 3, 9, 1, 2, 3, 8, 1, 2, 3 :: byte] ! (8 - D + k)
                    = [1, 2, 3, 9, 1, 2, 3, 8, 1, 2, 3] ! (8 + k)))"
proof -
  let ?b = "[1, 2, 3, 9, 1, 2, 3, 8, 1, 2, 3 :: byte]"
  have h1: "(8::nat) - 4096 \<le> 4" by simp
  have h2: "(4::nat) < 8" by simp
  have h3: "8 + 3 \<le> length ?b" by simp
  have h4: "\<forall>k<3. ?b ! (4 + k) = ?b ! (8 + k)"
  proof (intro allI impI)
    fix k :: nat assume "k < 3"
    then consider "k = 0" | "k = 1" | "k = 2" by linarith
    then show "?b ! (4 + k) = ?b ! (8 + k)" by cases simp_all
  qed
  from C3_longest_match_farthest_on_ties [OF h1 h2 h3 h4] h1 h2 h3 show ?thesis
    by blast
qed

text \<open>
  C3, as the specification states it, fails on ties. In the input below the cursor reaches
  position 8; positions 0 and 4 both give the maximal match length 3, and the emitted
  distance is 8 (position 0), not the smallest distance 4.
\<close>

theorem C3_nearest_tie_counterexample:
  "compress_step [1, 2, 3, 9, 1, 2, 3, 8, 1, 2, 3] 8 = ([0xFF, 0, 8, 3], 11)
   \<and> match_length [1, 2, 3, 9, 1, 2, 3, 8, 1, 2, 3] 0 8 0 = 3
   \<and> match_length [1, 2, 3, 9, 1, 2, 3, 8, 1, 2, 3] 4 8 0 = 3
   \<and> compress [1, 2, 3, 9, 1, 2, 3, 8, 1, 2, 3]
       = [0, 0, 0, 11, 1, 2, 3, 9, 0xFF, 0, 4, 3, 8, 0xFF, 0, 8, 3]"
proof -
  have "compress_step [1, 2, 3, 9, 1, 2, 3, 8, 1, 2, 3] 8 = ([0xFF, 0, 8, 3], 11)"
    by code_simp
  moreover have "match_length [1, 2, 3, 9, 1, 2, 3, 8, 1, 2, 3] 0 8 0 = 3"
    by code_simp
  moreover have "match_length [1, 2, 3, 9, 1, 2, 3, 8, 1, 2, 3] 4 8 0 = 3"
    by code_simp
  moreover have "compress [1, 2, 3, 9, 1, 2, 3, 8, 1, 2, 3]
       = [0, 0, 0, 11, 1, 2, 3, 9, 0xFF, 0, 4, 3, 8, 0xFF, 0, 8, 3]"
    by code_simp
  ultimately show ?thesis by blast
qed

subsection \<open>LZCompressor: round trip\<close>

text \<open>
  What the decompressor does with the stream of the compressor, as long as no literal is
  the marker byte: a match copies the bytes the compressor matched, a literal is
  appended, and the header gives the length back. So an input without a byte \<open>0xFF\<close>,
  shorter than \<open>2^31\<close> bytes, survives the round trip.
\<close>

lemma copy_match_Suc:
  "copy_match ms (Suc len) out
   = copy_match ms len out @ [array_at (copy_match ms len out) (ms + int len)]"
  by (simp add: copy_match_def)

lemma array_at_nat: "k < length xs \<Longrightarrow> array_at xs (int k) = xs ! k"
  by (simp add: array_at_def)

lemma copy_match_prefix:
  assumes "out = map Some (take pos b)" and "1 \<le> D" and "D \<le> pos"
    and "pos + L \<le> length b" and "\<forall>k<L. b ! (pos - D + k) = b ! (pos + k)"
  shows "copy_match (int pos - int D) L out = map Some (take (pos + L) b)"
  using assms(4,5)
proof (induction L)
  case 0
  with assms(1) show ?case by (simp add: copy_match_def)
next
  case (Suc L)
  then have IH: "copy_match (int pos - int D) L out = map Some (take (pos + L) b)"
    by simp
  from Suc.prems have len: "length (take (pos + L) b) = pos + L" by simp
  have idx: "int pos - int D + int L = int (pos - D + L)"
    using assms(3) by simp
  have inside: "pos - D + L < pos + L"
    using assms(2,3) by simp
  then have "array_at (map Some (take (pos + L) b)) (int (pos - D + L))
        = map Some (take (pos + L) b) ! (pos - D + L)"
    using len by (intro array_at_nat) simp
  also have "\<dots> = Some (b ! (pos - D + L))"
    using inside len by simp
  also have "\<dots> = Some (b ! (pos + L))"
    using Suc.prems by simp
  finally have "array_at (map Some (take (pos + L) b)) (int pos - int D + int L)
        = Some (b ! (pos + L))"
    unfolding idx .
  then have "copy_match (int pos - int D) (Suc L) out
        = map Some (take (pos + L) b) @ [Some (b ! (pos + L))]"
    unfolding copy_match_Suc IH by simp
  also have "\<dots> = map Some (take (Suc (pos + L)) b)"
    using Suc.prems by (simp add: take_Suc_conv_app_nth)
  finally show ?case by simp
qed

lemma distance_bytes:
  assumes "D < 65536"
  shows "push_bit 8 (uint (word_of_int (drop_bit 8 (int D) AND 0xFF) :: byte))
           OR uint (word_of_int (int D AND 0xFF) :: byte) = int D"
proof -
  have m: "(0xFF :: int) = mask 8" by (simp add: mask_eq_exp_minus_1)
  have hi: "uint (word_of_int (drop_bit 8 (int D) AND 0xFF) :: byte) = take_bit 8 (drop_bit 8 (int D))"
    unfolding m by (simp add: uint_word_of_int take_bit_eq_mod flip: take_bit_eq_mask)
  have lo: "uint (word_of_int (int D AND 0xFF) :: byte) = take_bit 8 (int D)"
    unfolding m by (simp add: uint_word_of_int take_bit_eq_mod flip: take_bit_eq_mask)
  have "push_bit 8 (take_bit 8 (drop_bit 8 (int D))) OR take_bit 8 (int D)
        = concat_bit 8 (int D) (take_bit 8 (drop_bit 8 (int D)))"
    by (simp add: concat_bit_def or.commute)
  also have "\<dots> = take_bit 8 (int D) + push_bit 8 (take_bit 8 (drop_bit 8 (int D)))"
    by (rule concat_bit_eq)
  also have "\<dots> = int D"
    using assms by (simp add: take_bit_eq_mod drop_bit_eq_div push_bit_eq_mult)
  finally show ?thesis unfolding hi lo .
qed

lemma to_int32_id: "0 \<le> x \<Longrightarrow> x < 2 ^ 31 \<Longrightarrow> to_int32 x = x"
  by (simp add: to_int32_def sint_sbintrunc' signed_take_bit_int_eq_self)

lemma uint_low_byte: "uint (word_of_int (y AND 0xFF) :: byte) = take_bit 8 y"
proof -
  have m: "(0xFF :: int) = mask 8" by (simp add: mask_eq_exp_minus_1)
  show ?thesis
    unfolding m by (simp add: uint_word_of_int take_bit_eq_mod flip: take_bit_eq_mask)
qed

lemma high_bits_clear:
  fixes x :: int
  assumes "0 \<le> x" and "x < 2 ^ n" and "bit x k"
  shows "k < n"
proof -
  from assms(1,2) have "take_bit n x = x" by (simp add: take_bit_int_eq_self)
  then have "bit x k \<longleftrightarrow> k < n \<and> bit x k"
    by (metis bit_take_bit_iff)
  with assms(3) show ?thesis by simp
qed

lemma originalSize_size_header:
  assumes "n < 2 ^ 31"
  shows "originalSize (map word_of_int (size_header n) @ rest) = int n"
proof -
  let ?x = "int n"
  have x: "0 \<le> ?x" "?x < 2 ^ 31" using assms by simp_all
  have t: "to_int32 ?x = ?x" by (rule to_int32_id [OF x])
  let ?p3 = "push_bit 24 (take_bit 8 (drop_bit 24 ?x))"
  let ?p2 = "push_bit 16 (take_bit 8 (drop_bit 16 ?x))"
  let ?p1 = "push_bit 8 (take_bit 8 (drop_bit 8 ?x))"
  let ?p0 = "take_bit 8 ?x"
  have os: "originalSize (map word_of_int (size_header n) @ rest)
        = to_int32 ?p3 OR to_int32 ?p2 OR to_int32 ?p1 OR ?p0"
    by (simp add: originalSize_def size_header_def typed_at_def int_of_elem_def t uint_low_byte)
  have hb: "k < 31" if "bit ?x k" for k
    using high_bits_clear [OF x that] .
  have p3: "0 \<le> ?p3" "?p3 < 2 ^ 31"
  proof -
    show "0 \<le> ?p3" by simp
    have "drop_bit 24 ?x < 2 ^ 7"
      using x by (simp add: drop_bit_eq_div)
    then have "take_bit 8 (drop_bit 24 ?x) < 2 ^ 7"
      by (metis take_bit_int_less_eq_self_iff drop_bit_nonnegative_int_iff x(1) le_less_trans)
    then show "?p3 < 2 ^ 31" by (simp add: push_bit_eq_mult)
  qed
  have p2: "0 \<le> ?p2" "?p2 < 2 ^ 31"
  proof -
    show "0 \<le> ?p2" by simp
    have "take_bit 8 (drop_bit 16 ?x) < 2 ^ 8" by (rule take_bit_int_less_exp)
    then show "?p2 < 2 ^ 31" by (simp add: push_bit_eq_mult)
  qed
  have p1: "0 \<le> ?p1" "?p1 < 2 ^ 31"
  proof -
    show "0 \<le> ?p1" by simp
    have "take_bit 8 (drop_bit 8 ?x) < 2 ^ 8" by (rule take_bit_int_less_exp)
    then show "?p1 < 2 ^ 31" by (simp add: push_bit_eq_mult)
  qed
  have "?p3 OR ?p2 OR ?p1 OR ?p0 = ?x"
  proof (rule bit_eqI)
    fix k
    show "bit (?p3 OR ?p2 OR ?p1 OR ?p0) k \<longleftrightarrow> bit ?x k"
    proof (cases "bit ?x k")
      case True
      then have "k < 31" by (rule hb)
      then consider "k < 8" | "8 \<le> k" "k < 16" | "16 \<le> k" "k < 24" | "24 \<le> k" "k < 32"
        by linarith
      then show ?thesis using True by cases (auto simp: bit_simps)
    next
      case False
      then show ?thesis by (auto simp: bit_simps)
    qed
  qed
  then show ?thesis
    unfolding os to_int32_id [OF p3] to_int32_id [OF p2] to_int32_id [OF p1] .
qed

lemma compress_loop_append:
  "compress_loop input pos out = out @ compress_loop input pos []"
proof (induction "length input - pos" arbitrary: pos out rule: less_induct)
  case less
  show ?case
  proof (cases "pos < length input")
    case False
    then show ?thesis by (simp add: compress_loop.simps)
  next
    case True
    let ?e = "fst (compress_step input pos)"
    let ?p = "snd (compress_step input pos)"
    have adv: "pos < ?p"
      by (simp add: compress_step_def split: prod.split)
    with True have m: "length input - ?p < length input - pos" by simp
    have "compress_loop input pos out = compress_loop input ?p (out @ ?e)"
      using True by (subst compress_loop.simps) simp
    also have "\<dots> = (out @ ?e) @ compress_loop input ?p []"
      by (rule less [OF m])
    also have "\<dots> = out @ compress_loop input ?p ([] @ ?e)"
      using less [OF m, of ?e] by simp
    also have "compress_loop input ?p ([] @ ?e) = compress_loop input pos []"
      using True by (subst (2) compress_loop.simps) simp
    finally show ?thesis .
  qed
qed

lemma compress_loop_step:
  "pos < length input \<Longrightarrow>
   compress_loop input pos []
   = fst (compress_step input pos) @ compress_loop input (snd (compress_step input pos)) []"
  using compress_loop_append [of input "snd (compress_step input pos)" "fst (compress_step input pos)"]
  by (subst compress_loop.simps) simp

lemma length_byte: "L < 256 \<Longrightarrow> unat (word_of_int (int L) :: byte) = L"
  by (simp add: unat_of_nat)

lemma decompress_loop_match:
  assumes "pos + 3 < length input" and "input ! pos = 0xFF" and "int (length out) < osize"
  shows "decompress_loop input osize pos out
         = decompress_loop input osize (pos + 4)
             (copy_match
                (int (length out)
                   - (push_bit 8 (uint (input ! (pos + 1))) OR uint (input ! (pos + 2))))
                (unat (input ! (pos + 3))) out)"
  using assms by (subst decompress_loop.simps) (simp add: Let_def)

lemma decompress_loop_literal:
  assumes "pos < length input" and "\<not> (input ! pos = 0xFF \<and> pos + 3 < length input)"
    and "int (length out) < osize"
  shows "decompress_loop input osize pos out
         = decompress_loop input osize (pos + 1) (out @ [Some (input ! pos)])"
  using assms by (subst decompress_loop.simps) auto

lemma roundtrip_loop:
  assumes "0xFF \<notin> set b" and "pos \<le> length b"
  shows "decompress_loop (pre @ map word_of_int (compress_loop b pos [])) (int (length b))
           (length pre) (map Some (take pos b))
         = map Some b"
  using assms(2)
proof (induction "length b - pos" arbitrary: pos pre rule: less_induct)
  case less
  let ?n = "int (length b)"
  let ?out = "map Some (take pos b)"
  show ?case
  proof (cases "pos < length b")
    case False
    with less.prems have "pos = length b" by simp
    then show ?thesis
      by (simp add: compress_loop.simps [of b "length b"] decompress_loop.simps [of pre])
  next
    case True
    obtain L D where fm: "find_match b pos = (L, D)"
      by (cases "find_match b pos")
    let ?p = "snd (compress_step b pos)"
    let ?rest = "map word_of_int (compress_loop b ?p []) :: byte list"
    show ?thesis
    proof (cases "3 \<le> L")
      case True
      note L3 = this
      with fm have step: "compress_step b pos
          = ([0xFF, drop_bit 8 (int D) AND 0xFF, int D AND 0xFF, int L], pos + L)"
        by (simp add: compress_step_def)
      from L3 have "0 < L" by simp
      note props = find_match_props [OF fm this]
      note D = props(1,2,3) and L = props(4) and agree = props(6)
      from props(5) \<open>pos < length b\<close> have fits: "pos + L \<le> length b"
        by simp
      let ?t = "[0xFF, word_of_int (drop_bit 8 (int D) AND 0xFF), word_of_int (int D AND 0xFF),
                 word_of_int (int L)] :: byte list"
      have input: "pre @ map word_of_int (compress_loop b pos []) = pre @ ?t @ ?rest"
        using \<open>pos < length b\<close> step by (simp add: compress_loop_step)
      have dist: "push_bit 8 (uint (?t ! 1)) OR uint (?t ! 2) = int D"
        using D(3) distance_bytes [of D] by (simp add: windowSize_def)
      have len: "unat (?t ! 3) = L"
        using L length_byte [of L] by (simp add: lookaheadSize_def)
      have nths: "(pre @ ?t @ ?rest) ! length pre = 0xFF"
        "(pre @ ?t @ ?rest) ! (length pre + 1) = ?t ! 1"
        "(pre @ ?t @ ?rest) ! (length pre + 2) = ?t ! 2"
        "(pre @ ?t @ ?rest) ! (length pre + 3) = ?t ! 3"
        by (simp_all add: nth_append)
      have copy: "copy_match (int pos - int D) L ?out = map Some (take (pos + L) b)"
        by (rule copy_match_prefix [OF refl D(1,2) fits agree])
      have lenout: "length ?out = pos"
        using \<open>pos < length b\<close> by simp
      have "decompress_loop (pre @ ?t @ ?rest) ?n (length pre) ?out
            = decompress_loop (pre @ ?t @ ?rest) ?n (length pre + 4)
                (copy_match
                   (int (length ?out)
                      - (push_bit 8 (uint ((pre @ ?t @ ?rest) ! (length pre + 1)))
                           OR uint ((pre @ ?t @ ?rest) ! (length pre + 2))))
                   (unat ((pre @ ?t @ ?rest) ! (length pre + 3))) ?out)"
      proof (rule decompress_loop_match)
        show "length pre + 3 < length (pre @ ?t @ ?rest)" by simp
        show "(pre @ ?t @ ?rest) ! length pre = 0xFF" by (rule nths(1))
        show "int (length ?out) < ?n" using \<open>pos < length b\<close> by simp
      qed
      also have "\<dots> = decompress_loop (pre @ ?t @ ?rest) ?n (length pre + 4)
                (copy_match (int pos - int D) L ?out)"
        by (simp only: nths dist len lenout)
      also have "\<dots> = decompress_loop ((pre @ ?t) @ ?rest) ?n (length (pre @ ?t))
                (map Some (take (pos + L) b))"
      proof -
        have lt: "length (pre @ ?t) = length pre + 4" by simp
        have app: "(pre @ ?t) @ ?rest = pre @ ?t @ ?rest" by simp
        show ?thesis by (simp only: copy lt app)
      qed
      also have "\<dots> = map Some b"
      proof -
        from L3 \<open>pos < length b\<close> fits have "length b - (pos + L) < length b - pos" by simp
        from less.hyps [OF this fits, of "pre @ ?t"] step show ?thesis by simp
      qed
      finally show ?thesis unfolding input .
    next
      case False
      with fm have step: "compress_step b pos = ([uint (b ! pos)], pos + 1)"
        by (simp add: compress_step_def)
      have input: "pre @ map word_of_int (compress_loop b pos []) = pre @ [b ! pos] @ ?rest"
        using \<open>pos < length b\<close> step by (simp add: compress_loop_step)
      from assms(1) \<open>pos < length b\<close> have lit: "b ! pos \<noteq> 0xFF"
        by (metis nth_mem)
      have at: "(pre @ [b ! pos] @ ?rest) ! length pre = b ! pos"
        by simp
      have "decompress_loop (pre @ [b ! pos] @ ?rest) ?n (length pre) ?out
            = decompress_loop (pre @ [b ! pos] @ ?rest) ?n (length pre + 1)
                (?out @ [Some ((pre @ [b ! pos] @ ?rest) ! length pre)])"
      proof (rule decompress_loop_literal)
        show "length pre < length (pre @ [b ! pos] @ ?rest)" by simp
        show "\<not> ((pre @ [b ! pos] @ ?rest) ! length pre = 0xFF
            \<and> length pre + 3 < length (pre @ [b ! pos] @ ?rest))"
          unfolding at using lit by simp
        show "int (length ?out) < ?n" using \<open>pos < length b\<close> by simp
      qed
      also have "\<dots> = decompress_loop (pre @ [b ! pos] @ ?rest) ?n (length pre + 1)
                (?out @ [Some (b ! pos)])"
        by (simp only: at)
      also have "\<dots> = decompress_loop ((pre @ [b ! pos]) @ ?rest) ?n (length (pre @ [b ! pos]))
                (map Some (take (pos + 1) b))"
      proof -
        have lt: "length (pre @ [b ! pos]) = length pre + 1" by simp
        have app: "(pre @ [b ! pos]) @ ?rest = pre @ [b ! pos] @ ?rest" by simp
        have tk: "map Some (take (pos + 1) b) = ?out @ [Some (b ! pos)]"
          using \<open>pos < length b\<close> by (simp add: take_Suc_conv_app_nth)
        show ?thesis by (simp only: tk lt app)
      qed
      also have "\<dots> = map Some b"
      proof -
        from \<open>pos < length b\<close> have "length b - (pos + 1) < length b - pos" "pos + 1 \<le> length b"
          by simp_all
        from less.hyps [OF this, of "pre @ [b ! pos]"] step show ?thesis by simp
      qed
      finally show ?thesis unfolding input .
    qed
  qed
qed

lemma roundtrip_without_marker:
  assumes "0xFF \<notin> set b" and "length b < 2 ^ 31"
  shows "decompress (compress b) = b"
proof -
  let ?hdr = "map word_of_int (size_header (length b)) :: byte list"
  let ?rest = "map word_of_int (compress_loop b 0 []) :: byte list"
  have c: "compress b = ?hdr @ ?rest"
    using compress_loop_append [of b 0 "size_header (length b)"] by (simp add: compress_def)
  have sz: "originalSize (?hdr @ ?rest) = int (length b)"
    by (rule originalSize_size_header [OF assms(2)])
  have "length ?hdr = 4" by (simp add: size_header_def)
  with roundtrip_loop [OF assms(1), of 0 ?hdr]
  have loop: "decompress_loop (?hdr @ ?rest) (int (length b)) 4 [] = map Some b"
    by simp
  have "map to_uint8 (map Some xs) = xs" for xs :: "byte list"
    by (induction xs) (simp_all add: to_uint8_def)
  then show ?thesis
    unfolding c decompress_def sz loop by (simp add: slice0_def)
qed

text \<open>
  C1 at a failing input. A literal byte \<open>0xFF\<close> is written to the stream unchanged, and
  the decompressor reads it as the marker of a match: the four bytes
  \<open>0xFF, 0x01, 0x02, 0x03\<close> come back as three zero bytes.
\<close>

theorem C1_roundtrip_fails_on_marker_byte:
  "compress [0xFF, 0x01, 0x02, 0x03] = [0, 0, 0, 4, 0xFF, 0x01, 0x02, 0x03]
   \<and> decompress (compress [0xFF, 0x01, 0x02, 0x03]) = [0, 0, 0]"
proof -
  have "compress [0xFF, 0x01, 0x02, 0x03] = [0, 0, 0, 4, 0xFF, 0x01, 0x02, 0x03]"
    by code_simp
  moreover have "decompress (compress [0xFF, 0x01, 0x02, 0x03]) = [0, 0, 0]"
    by code_simp
  ultimately show ?thesis by blast
qed

subsection \<open>LZCompressor: end of input\<close>

lemma window_length: "length (window d out) = d"
  by (simp add: window_def)

lemma copied_length: "length (copied d l out) = l"
  by (simp add: copied_def)

lemma copied_Suc:
  "copied d (Suc l) out
   = copied d l out @ [if d = 0 then None else window d out ! (l mod d)]"
  by (simp add: copied_def replicate_append_same)

lemma copied_read:
  "array_at (out @ copied d l out) (int (length out) - int d + int l)
   = (if d = 0 then None else window d out ! (l mod d))"
proof (cases "d = 0")
  case True
  then show ?thesis by (simp add: array_at_def copied_length)
next
  case False
  show ?thesis
  proof (cases "length out + l < d")
    case True
    then have "int (length out) - int d + int l < 0" by simp
    then have "array_at (out @ copied d l out) (int (length out) - int d + int l) = None"
      by (simp add: array_at_def)
    moreover from True have "l mod d = l" "l < d - length out" by simp_all
    then have "window d out ! (l mod d) = None"
      by (simp add: window_def nth_append)
    ultimately show ?thesis using False by simp
  next
    case False
    note ge = this
    let ?i = "length out + l - d"
    from ge have idx: "int (length out) - int d + int l = int ?i" by simp
    from \<open>d \<noteq> 0\<close> ge have inside: "?i < length (out @ copied d l out)"
      by (simp add: copied_length)
    have "array_at (out @ copied d l out) (int ?i) = (out @ copied d l out) ! ?i"
      using inside by (simp add: array_at_def)
    also have "\<dots> = window d out ! (l mod d)"
    proof (cases "l < d")
      case True
      then have i: "?i < length out" using ge by simp
      from True have m: "l mod d = l" by simp
      show ?thesis
      proof (cases "d \<le> length out")
        case True
        then have "window d out ! l = out ! (length out - d + l)"
          using \<open>l < d\<close> by (simp add: window_def)
        moreover from True have "length out - d + l = ?i" by simp
        ultimately show ?thesis using i m by (simp add: nth_append)
      next
        case False
        then have "window d out = replicate (d - length out) None @ out"
          by (simp add: window_def)
        moreover from False ge have "d - length out \<le> l" by simp
        moreover from False ge have "l - (d - length out) = ?i" by simp
        ultimately show ?thesis using i m by (simp add: nth_append)
      qed
    next
      case False
      then have i: "\<not> ?i < length out" "?i - length out = l - d" by simp_all
      from False \<open>d \<noteq> 0\<close> have ld: "l - d < l" by simp
      have "copied d l out ! (l - d) = window d out ! ((l - d) mod d)"
        using ld \<open>d \<noteq> 0\<close> by (simp add: copied_def)
      also from False have "(l - d) mod d = l mod d"
        by (simp add: le_mod_geq)
      finally show ?thesis using i by (simp add: nth_append)
    qed
    finally show ?thesis using \<open>d \<noteq> 0\<close> unfolding idx by simp
  qed
qed

lemma copy_match_copied:
  "copy_match (int (length out) - int d) l out = out @ copied d l out"
proof (induction l)
  case 0
  then show ?case by (simp add: copy_match_def copied_def)
next
  case (Suc l)
  show ?case
    unfolding copy_match_Suc Suc copied_read copied_Suc by simp
qed

lemma distance_of_bytes:
  fixes a b :: byte
  shows "push_bit 8 (uint a) OR uint b = int (256 * unat a + unat b)"
proof -
  have tb: "take_bit 8 (uint b) = uint b"
    using uint_lt2p [of b] by (simp add: take_bit_int_eq_self)
  have "push_bit 8 (uint a) OR uint b = concat_bit 8 (uint b) (uint a)"
    by (simp add: concat_bit_def tb or.commute)
  also have "\<dots> = take_bit 8 (uint b) + push_bit 8 (uint a)"
    by (rule concat_bit_eq)
  finally show ?thesis unfolding tb by (simp add: push_bit_eq_mult)
qed

lemma decompress_loop_tokens:
  "decompress_loop (pre @ body) n (length pre) out = decode_tokens n (stream_tokens body) out"
proof (induction body arbitrary: pre out rule: stream_tokens.induct)
  case 1
  show ?case by (simp add: decompress_loop.simps [of pre])
next
  case (2 b rest)
  let ?input = "pre @ b # rest"
  show ?case
  proof (cases "int (length out) < n")
    case False
    then have "decompress_loop ?input n (length pre) out = out"
      by (subst decompress_loop.simps) simp
    with False show ?thesis by (simp add: stream_tokens.simps(2))
  next
    case True
    note room = this
    show ?thesis
    proof (cases "b = 0xFF \<and> 3 \<le> length rest")
      case True
      let ?d = "256 * unat (rest ! 0) + unat (rest ! 1)"
      let ?l = "unat (rest ! 2)"
      from True have toks: "stream_tokens (b # rest) = Match ?d ?l # stream_tokens (drop 3 rest)"
        by (simp add: stream_tokens.simps(2))
      from True have nths: "?input ! length pre = 0xFF"
        "?input ! (length pre + 1) = rest ! 0"
        "?input ! (length pre + 2) = rest ! 1"
        "?input ! (length pre + 3) = rest ! 2"
        by (simp_all add: nth_append)
      have "decompress_loop ?input n (length pre) out
            = decompress_loop ?input n (length pre + 4)
                (copy_match
                   (int (length out)
                      - (push_bit 8 (uint (?input ! (length pre + 1)))
                           OR uint (?input ! (length pre + 2))))
                   (unat (?input ! (length pre + 3))) out)"
      proof (rule decompress_loop_match)
        show "length pre + 3 < length ?input" using True by simp
        show "?input ! length pre = 0xFF" by (rule nths(1))
        show "int (length out) < n" by (rule room)
      qed
      also have "\<dots> = decompress_loop ?input n (length pre + 4)
                (copy_match (int (length out) - int ?d) ?l out)"
        by (simp only: nths distance_of_bytes)
      also have "\<dots> = decompress_loop ((pre @ b # take 3 rest) @ drop 3 rest) n
                (length (pre @ b # take 3 rest)) (out @ copied ?d ?l out)"
      proof -
        have lt: "length (pre @ b # take 3 rest) = length pre + 4" using True by simp
        have app: "(pre @ b # take 3 rest) @ drop 3 rest = ?input" by simp
        show ?thesis by (simp only: lt app copy_match_copied)
      qed
      also have "\<dots> = decode_tokens n (stream_tokens (drop 3 rest)) (out @ copied ?d ?l out)"
        by (rule "2.IH"(1) [OF True])
      finally show ?thesis using room by (simp add: toks)
    next
      case False
      then have toks: "stream_tokens (b # rest) = Literal b # stream_tokens rest"
        by (simp add: stream_tokens.simps(2))
      have at: "?input ! length pre = b" by simp
      have "decompress_loop ?input n (length pre) out
            = decompress_loop ?input n (length pre + 1) (out @ [Some (?input ! length pre)])"
      proof (rule decompress_loop_literal)
        show "length pre < length ?input" by simp
        show "\<not> (?input ! length pre = 0xFF \<and> length pre + 3 < length ?input)"
          unfolding at using False by auto
        show "int (length out) < n" by (rule room)
      qed
      also have "\<dots> = decompress_loop ((pre @ [b]) @ rest) n (length (pre @ [b])) (out @ [Some b])"
      proof -
        have lt: "length (pre @ [b]) = length pre + 1" by simp
        have app: "(pre @ [b]) @ rest = ?input" by simp
        show ?thesis by (simp only: lt app at)
      qed
      also have "\<dots> = decode_tokens n (stream_tokens rest) (out @ [Some b])"
        by (rule "2.IH"(2) [OF False])
      finally show ?thesis using room by (simp add: toks)
    qed
  qed
qed

lemma decode_tokens_grows:
  "length out \<le> length (foldl (\<lambda>out t. out @ token_output t out) out ts)"
proof (induction ts arbitrary: out)
  case Nil
  then show ?case by simp
next
  case (Cons t ts)
  have "length out \<le> length (out @ token_output t out)" by simp
  also have "\<dots> \<le> length (foldl (\<lambda>out t. out @ token_output t out) (out @ token_output t out) ts)"
    by (rule Cons.IH)
  finally show ?case by simp
qed

lemma decode_tokens_all:
  "int (length (foldl (\<lambda>out t. out @ token_output t out) out ts)) < n \<Longrightarrow>
   decode_tokens n ts out = foldl (\<lambda>out t. out @ token_output t out) out ts"
proof (induction ts arbitrary: out)
  case Nil
  then show ?case by simp
next
  case (Cons t ts)
  from Cons.prems have total:
    "int (length (foldl (\<lambda>out t. out @ token_output t out) (out @ token_output t out) ts)) < n"
    by simp
  have "length out \<le> length (out @ token_output t out)" by simp
  also note decode_tokens_grows [of "out @ token_output t out" ts]
  finally have "int (length out) < n" using total by linarith
  with Cons.IH [OF total] show ?case by simp
qed

lemma to_uint8_Some: "map to_uint8 (map Some xs) = xs"
  by (induction xs) (simp_all add: to_uint8_def)

text \<open>
  C7, as the code has it, for every stream. The result is never longer than the length
  declared in the header. It is the output of the tokens of the stream, taken while the
  output is shorter than the declared length, cut to the declared length: tokens after
  that point are not used. When all the tokens together give fewer elements than
  declared, the input is exhausted first, and the result is their whole output: the bytes
  produced are returned, and there is no error result.
\<close>

theorem C7_decompress_truncates_and_returns_partial:
  "length (decompress input) \<le> nat (originalSize input)
   \<and> decompress (h0 # h1 # h2 # h3 # body)
       = map to_uint8 (take (nat (originalSize [h0, h1, h2, h3]))
           (decode_tokens (originalSize [h0, h1, h2, h3]) (stream_tokens body) []))
   \<and> (int (length (all_output (stream_tokens body))) < originalSize [h0, h1, h2, h3]
        \<longrightarrow> decompress (h0 # h1 # h2 # h3 # body)
            = map to_uint8 (all_output (stream_tokens body)))"
proof (intro conjI impI)
  show "length (decompress input) \<le> nat (originalSize input)"
  proof (cases "originalSize input < 0")
    case True
    then have "decompress_loop input (originalSize input) 4 [] = []"
      by (subst decompress_loop.simps) simp
    then show ?thesis by (simp add: decompress_def slice0_def)
  next
    case False
    then show ?thesis by (simp add: decompress_def slice0_def)
  qed
next
  let ?sz = "originalSize [h0, h1, h2, h3]"
  let ?out = "decode_tokens ?sz (stream_tokens body) []"
  have sz: "originalSize (h0 # h1 # h2 # h3 # body) = ?sz"
    by (simp add: originalSize_def typed_at_def)
  have l4: "length [h0, h1, h2, h3] = 4" by simp
  have "decompress_loop ([h0, h1, h2, h3] @ body) ?sz (length [h0, h1, h2, h3]) [] = ?out"
    by (rule decompress_loop_tokens)
  then have loop: "decompress_loop (h0 # h1 # h2 # h3 # body) ?sz 4 [] = ?out"
    unfolding l4 by simp
  have neg: "?out = []" if "?sz < 0"
    using that by (cases "stream_tokens body") simp_all
  show main: "decompress (h0 # h1 # h2 # h3 # body) = map to_uint8 (take (nat ?sz) ?out)"
    unfolding decompress_def sz loop using neg by (simp add: slice0_def)
  assume "int (length (all_output (stream_tokens body))) < ?sz"
  then have all: "?out = all_output (stream_tokens body)"
    and short: "length (all_output (stream_tokens body)) \<le> nat ?sz"
    unfolding all_output_def by (simp_all add: decode_tokens_all)
  show "decompress (h0 # h1 # h2 # h3 # body) = map to_uint8 (all_output (stream_tokens body))"
    unfolding main all using short by simp
qed

theorem C7_decompress_partial_witness:
  "stream_tokens [0x41, 0x42, 0xFF, 0, 2, 4] = [Literal 0x41, Literal 0x42, Match 2 4]
   \<and> all_output [Literal 0x41, Literal 0x42, Match 2 4]
       = [Some 0x41, Some 0x42, Some 0x41, Some 0x42, Some 0x41, Some 0x42]
   \<and> originalSize [0, 0, 0, 9] = 9
   \<and> decompress [0, 0, 0, 9, 0x41, 0x42, 0xFF, 0, 2, 4] = [0x41, 0x42, 0x41, 0x42, 0x41, 0x42]
   \<and> decompress [0, 0, 0, 3, 0x41, 0x42, 0xFF, 0, 2, 4] = [0x41, 0x42, 0x41]"
proof -
  have t: "stream_tokens [0x41, 0x42, 0xFF, 0, 2, 4] = [Literal 0x41, Literal 0x42, Match 2 4]"
    by code_simp
  have a: "all_output [Literal 0x41, Literal 0x42, Match 2 4]
       = [Some 0x41, Some 0x42, Some 0x41, Some 0x42, Some 0x41, Some 0x42]"
    by code_simp
  have s: "originalSize [0, 0, 0, 9] = 9" by code_simp
  have s3: "originalSize [0, 0, 0, 3] = 3" by code_simp
  have d3: "decode_tokens 3 [Literal 0x41, Literal 0x42, Match 2 4] []
       = [Some 0x41, Some 0x42, Some 0x41, Some 0x42, Some 0x41, Some 0x42]"
    by code_simp
  have h: "int (length (all_output (stream_tokens [0x41, 0x42, 0xFF, 0, 2, 4])))
           < originalSize [0, 0, 0, 9]"
    unfolding t a s by simp
  from C7_decompress_truncates_and_returns_partial [of _ 0 0 0 9 "[0x41, 0x42, 0xFF, 0, 2, 4]"] h
  have "decompress [0, 0, 0, 9, 0x41, 0x42, 0xFF, 0, 2, 4]
        = map to_uint8 (all_output (stream_tokens [0x41, 0x42, 0xFF, 0, 2, 4]))"
    by blast
  then have full: "decompress [0, 0, 0, 9, 0x41, 0x42, 0xFF, 0, 2, 4]
        = [0x41, 0x42, 0x41, 0x42, 0x41, 0x42]"
    unfolding t a by (simp add: to_uint8_def)
  from C7_decompress_truncates_and_returns_partial [of _ 0 0 0 3 "[0x41, 0x42, 0xFF, 0, 2, 4]"]
  have "decompress [0, 0, 0, 3, 0x41, 0x42, 0xFF, 0, 2, 4]
        = map to_uint8 (take (nat (originalSize [0, 0, 0, 3]))
            (decode_tokens (originalSize [0, 0, 0, 3]) (stream_tokens [0x41, 0x42, 0xFF, 0, 2, 4]) []))"
    by blast
  then have cut: "decompress [0, 0, 0, 3, 0x41, 0x42, 0xFF, 0, 2, 4] = [0x41, 0x42, 0x41]"
    unfolding t s3 d3 by (simp add: to_uint8_def)
  from t a s full cut show ?thesis by blast
qed

text \<open>
  C7, as the specification states it, fails: the header declares 5 bytes, the stream ends
  after one literal, and that byte is returned.
\<close>

theorem C7_exhausted_input_counterexample:
  "originalSize [0, 0, 0, 5, 0x41] = 5 \<and> decompress [0, 0, 0, 5, 0x41] = [0x41]"
proof -
  have "originalSize [0, 0, 0, 5, 0x41] = 5" by code_simp
  moreover have "decompress [0, 0, 0, 5, 0x41] = [0x41]" by code_simp
  ultimately show ?thesis by blast
qed

subsection \<open>Receiver session: the chunk store\<close>

lemma reconstructFile_chunks [simp]:
  "receivedChunks (reconstructFile rt st) = receivedChunks st"
  by (simp add: reconstructFile_def split: option.split)

lemma processPacket_chunks:
  "receivedChunks (processPacket rt p st) =
     (case packet_index rt p of
        None \<Rightarrow> receivedChunks st
      | Some k \<Rightarrow> if has_chunk st k then receivedChunks st
                  else receivedChunks st @ [(k, packet_payload rt p)])"
proof -
  let ?packet = "trim (filter (\<lambda>c. c \<noteq> CHR 0x00) p)"
  show ?thesis
  proof (cases "?packet = [] \<or> length ?packet < 5")
    case True
    then have "packet_index rt p = None"
      by (auto simp: packet_index_def Let_def startsWith_def)
    moreover from True have "processPacket rt p st = st"
      by (simp add: processPacket_def Let_def)
    ultimately show ?thesis by simp
  next
    case False
    note long = this
    show ?thesis
    proof (cases "startsWith ?packet ''DATA:''")
      case True
      then have notmeta: "\<not> startsWith ?packet ''META:''"
        by (auto simp: startsWith_def)
      from True long have idx: "packet_index rt p = map_option fst (data_fields rt ?packet)"
        by (simp add: packet_index_def Let_def)
      show ?thesis
      proof (cases "data_fields rt ?packet")
        case None
        with True notmeta long idx show ?thesis
          by (simp add: processPacket_def Let_def)
      next
        case (Some kv)
        obtain k v where kv: "kv = (k, v)" by (cases kv)
        with Some have pay: "packet_payload rt p = v"
          by (simp add: packet_payload_def)
        from Some kv True notmeta long idx pay show ?thesis
          by (simp add: processPacket_def Let_def)
      qed
    next
      case False
      then have "packet_index rt p = None"
        by (simp add: packet_index_def Let_def)
      moreover from False long have "receivedChunks (processPacket rt p st) = receivedChunks st"
        by (simp add: processPacket_def Let_def split: option.split)
      ultimately show ?thesis by simp
    qed
  qed
qed

lemma step_keeps:
  "map_of (receivedChunks st) k = Some v \<Longrightarrow>
   map_of (receivedChunks (processPacket rt p st)) k = Some v"
  by (auto simp: processPacket_chunks map_add_def split: option.split)

lemma step_distinct:
  "distinct (map fst (receivedChunks st)) \<Longrightarrow>
   distinct (map fst (receivedChunks (processPacket rt p st)))"
  by (auto simp: processPacket_chunks has_chunk_def map_of_eq_None_iff split: option.split)

lemma step_first:
  "packet_index rt p = Some k \<Longrightarrow> map_of (receivedChunks st) k = None \<Longrightarrow>
   map_of (receivedChunks (processPacket rt p st)) k = Some (packet_payload rt p)"
  by (simp add: processPacket_chunks has_chunk_def map_add_def)

lemma step_other:
  "packet_index rt p \<noteq> Some k \<Longrightarrow> map_of (receivedChunks st) k = None \<Longrightarrow>
   map_of (receivedChunks (processPacket rt p st)) k = None"
  by (auto simp: processPacket_chunks has_chunk_def map_add_def split: option.split)

lemma deliver_all_Cons:
  "deliver_all rt (p # ps) st = deliver_all rt ps (processPacket rt p st)"
  by (simp add: deliver_all_def)

lemma deliver_all_keeps:
  "map_of (receivedChunks st) k = Some v \<Longrightarrow>
   map_of (receivedChunks (deliver_all rt ps st)) k = Some v"
proof (induction ps arbitrary: st)
  case Nil
  then show ?case by (simp add: deliver_all_def)
next
  case (Cons p ps)
  from Cons.prems have "map_of (receivedChunks (processPacket rt p st)) k = Some v"
    by (rule step_keeps)
  then show ?case unfolding deliver_all_Cons by (rule Cons.IH)
qed

lemma deliver_all_distinct:
  "distinct (map fst (receivedChunks st)) \<Longrightarrow>
   distinct (map fst (receivedChunks (deliver_all rt ps st)))"
proof (induction ps arbitrary: st)
  case Nil
  then show ?case by (simp add: deliver_all_def)
next
  case (Cons p ps)
  from Cons.prems have "distinct (map fst (receivedChunks (processPacket rt p st)))"
    by (rule step_distinct)
  then show ?case unfolding deliver_all_Cons by (rule Cons.IH)
qed

lemma deliver_all_first:
  assumes "packet_index rt p = Some k"
    and "\<forall>q\<in>set before. packet_index rt q \<noteq> Some k"
    and "map_of (receivedChunks st) k = None"
  shows "map_of (receivedChunks (deliver_all rt (before @ p # after) st)) k
         = Some (packet_payload rt p)"
  using assms(2,3)
proof (induction before arbitrary: st)
  case Nil
  from assms(1) Nil.prems(2)
  have "map_of (receivedChunks (processPacket rt p st)) k = Some (packet_payload rt p)"
    by (rule step_first)
  then show ?case
    unfolding append_Nil deliver_all_Cons by (rule deliver_all_keeps)
next
  case (Cons q qs)
  from Cons.prems have "packet_index rt q \<noteq> Some k" by simp
  from this Cons.prems(2)
  have "map_of (receivedChunks (processPacket rt q st)) k = None"
    by (rule step_other)
  moreover from Cons.prems have "\<forall>q\<in>set qs. packet_index rt q \<noteq> Some k" by simp
  ultimately show ?case
    unfolding append_Cons deliver_all_Cons by (intro Cons.IH)
qed

text \<open>
  C8. Whatever packets are delivered, in whatever order, and whatever number \<open>parseInt\<close>
  makes of an index field: the keys of the chunk store stay unique, so an index is
  written at most once; an entry of the store is never changed; and for an index that is
  not yet in the store, the payload of the first packet that carries the index is the one
  stored at the end, whatever later packets with that index carry. The index of a packet
  is the number that \<open>parseInt\<close> returns, so two numerals that round to one double are
  one index.
\<close>

theorem C8_first_packet_of_an_index_wins:
  assumes "distinct (map fst (receivedChunks st))"
  shows "distinct (map fst (receivedChunks (deliver_all rt packets st)))
         \<and> (\<forall>k v. map_of (receivedChunks st) k = Some v
                \<longrightarrow> map_of (receivedChunks (deliver_all rt packets st)) k = Some v)
         \<and> (\<forall>before p after k.
                packets = before @ p # after \<and> packet_index rt p = Some k
                \<and> (\<forall>q\<in>set before. packet_index rt q \<noteq> Some k)
                \<and> map_of (receivedChunks st) k = None
                \<longrightarrow> map_of (receivedChunks (deliver_all rt packets st)) k
                      = Some (packet_payload rt p))"
  using assms deliver_all_distinct deliver_all_keeps deliver_all_first by blast

theorem C8_first_packet_witness:
  "distinct (map fst (receivedChunks initial_receiver))
   \<and> packet_index null_runtime ''DATA:0:AAAA'' = Some (Finite 0)
   \<and> packet_payload null_runtime ''DATA:0:AAAA'' = ''AAAA''
   \<and> packet_index null_runtime ''DATA:0:BBBB'' = Some (Finite 0)
   \<and> map_of (receivedChunks (deliver_all null_runtime
        [''DATA:0:AAAA'', ''DATA:0:BBBB'', ''DATA:1:CCCC''] initial_receiver)) (Finite 0)
     = Some ''AAAA''
   \<and> receivedChunks (deliver_all null_runtime
        [''DATA:0:AAAA'', ''DATA:0:BBBB'', ''DATA:1:CCCC''] initial_receiver)
     = [(Finite 0, ''AAAA''), (Finite 1, ''CCCC'')]
   \<and> distinct (map fst (receivedChunks (deliver_all null_runtime
        [''DATA:0:AAAA'', ''DATA:0:BBBB'', ''DATA:1:CCCC''] initial_receiver)))
   \<and> packet_index rounding_runtime ''DATA:9007199254740993:A'' = Some (Finite 9007199254740992)
   \<and> packet_index rounding_runtime ''DATA:9007199254740992:B'' = Some (Finite 9007199254740992)
   \<and> map_of (receivedChunks (deliver_all rounding_runtime
        [''DATA:9007199254740993:A'', ''DATA:9007199254740992:B''] initial_receiver))
        (Finite 9007199254740992)
     = Some ''A''
   \<and> receivedChunks (deliver_all rounding_runtime
        [''DATA:9007199254740993:A'', ''DATA:9007199254740992:B''] initial_receiver)
     = [(Finite 9007199254740992, ''A'')]"
proof -
  let ?packets = "[''DATA:0:AAAA'', ''DATA:0:BBBB'', ''DATA:1:CCCC'']"
  have h: "distinct (map fst (receivedChunks initial_receiver))"
    by (simp add: initial_receiver_def)
  have i1: "packet_index null_runtime ''DATA:0:AAAA'' = Some (Finite 0)" by code_simp
  have p1: "packet_payload null_runtime ''DATA:0:AAAA'' = ''AAAA''" by code_simp
  have i2: "packet_index null_runtime ''DATA:0:BBBB'' = Some (Finite 0)" by code_simp
  have e: "receivedChunks (deliver_all null_runtime ?packets initial_receiver)
     = [(Finite 0, ''AAAA''), (Finite 1, ''CCCC'')]"
    by code_simp
  note inst = C8_first_packet_of_an_index_wins [OF h, of null_runtime ?packets]
  have sp: "?packets = [] @ ''DATA:0:AAAA'' # [''DATA:0:BBBB'', ''DATA:1:CCCC'']"
    by simp
  have fresh: "map_of (receivedChunks initial_receiver) (Finite 0) = None"
    by (simp add: initial_receiver_def)
  have before: "\<forall>q\<in>set ([] :: string list). packet_index null_runtime q \<noteq> Some (Finite 0)"
    by simp
  from inst sp i1 before fresh
  have first: "map_of (receivedChunks (deliver_all null_runtime ?packets initial_receiver)) (Finite 0)
      = Some (packet_payload null_runtime ''DATA:0:AAAA'')"
    by blast
  from inst have d: "distinct (map fst (receivedChunks (deliver_all null_runtime ?packets initial_receiver)))"
    by blast
  let ?big = "[''DATA:9007199254740993:A'', ''DATA:9007199254740992:B'']"
  have j1: "packet_index rounding_runtime ''DATA:9007199254740993:A''
      = Some (Finite 9007199254740992)" by code_simp
  have q1: "packet_payload rounding_runtime ''DATA:9007199254740993:A'' = ''A''" by code_simp
  have j2: "packet_index rounding_runtime ''DATA:9007199254740992:B''
      = Some (Finite 9007199254740992)" by code_simp
  have e2: "receivedChunks (deliver_all rounding_runtime ?big initial_receiver)
     = [(Finite 9007199254740992, ''A'')]"
    by code_simp
  note inst2 = C8_first_packet_of_an_index_wins [OF h, of rounding_runtime ?big]
  have sp2: "?big = [] @ ''DATA:9007199254740993:A'' # [''DATA:9007199254740992:B'']"
    by simp
  have fresh2: "map_of (receivedChunks initial_receiver) (Finite 9007199254740992) = None"
    by (simp add: initial_receiver_def)
  have before2: "\<forall>q\<in>set ([] :: string list).
      packet_index rounding_runtime q \<noteq> Some (Finite 9007199254740992)"
    by simp
  from inst2 sp2 j1 before2 fresh2
  have first2: "map_of (receivedChunks (deliver_all rounding_runtime ?big initial_receiver))
        (Finite 9007199254740992)
      = Some (packet_payload rounding_runtime ''DATA:9007199254740993:A'')"
    by blast
  from h i1 p1 i2 first e d j1 j2 first2 q1 e2 show ?thesis by simp
qed

subsection \<open>Receiver session: verification\<close>


text \<open>
  C9. When the metadata carries the checksum 0, the comparison is skipped: whatever bytes
  the reconstruction yields, they are stored as the artifact with the status
  \<open>Verified\<close>.
\<close>

theorem C9_zero_checksum_is_reported_verified:
  assumes "fileMetadata st = Some meta" and "checksum meta = 0"
    and "reconstruct_bytes rt st = Some bytes"
  shows "receivedData (reconstructFile rt st) = Some bytes
         \<and> integrityStatus (reconstructFile rt st) = Some Verified
         \<and> (\<forall>b. verify_integrity meta b = Verified)"
  using assms by (simp add: reconstructFile_def verify_integrity_def)

theorem C9_zero_checksum_witness:
  "fileMetadata (initial_receiver\<lparr>receivedChunks := [(Finite 0, ''0100100001101001'')],
        expectedChunks := 1,
        fileMetadata := Some \<lparr>filename = ''a.bin'', size_meta = 2, originalSize_meta = 2,
          compressed = False, checksum = 0, crc = 0xB001, chunks = 1, encoding = ''binary''\<rparr>\<rparr>)
     = Some \<lparr>filename = ''a.bin'', size_meta = 2, originalSize_meta = 2,
          compressed = False, checksum = 0, crc = 0xB001, chunks = 1, encoding = ''binary''\<rparr>
   \<and> calculateChecksum [0x00, 0x00] = 0
   \<and> calculateChecksum [0x48, 0x69] = 0xB1
   \<and> receivedData (reconstructFile null_runtime
        (initial_receiver\<lparr>receivedChunks := [(Finite 0, ''0100100001101001'')],
        expectedChunks := 1,
        fileMetadata := Some \<lparr>filename = ''a.bin'', size_meta = 2, originalSize_meta = 2,
          compressed = False, checksum = 0, crc = 0xB001, chunks = 1, encoding = ''binary''\<rparr>\<rparr>))
      = Some [0x48, 0x69]
   \<and> integrityStatus (reconstructFile null_runtime
        (initial_receiver\<lparr>receivedChunks := [(Finite 0, ''0100100001101001'')],
        expectedChunks := 1,
        fileMetadata := Some \<lparr>filename = ''a.bin'', size_meta = 2, originalSize_meta = 2,
          compressed = False, checksum = 0, crc = 0xB001, chunks = 1, encoding = ''binary''\<rparr>\<rparr>))
      = Some Verified"
proof -
  let ?meta = "\<lparr>filename = ''a.bin'', size_meta = 2, originalSize_meta = 2,
          compressed = False, checksum = 0, crc = 0xB001, chunks = 1, encoding = ''binary''\<rparr>"
  let ?st = "initial_receiver\<lparr>receivedChunks := [(Finite 0, ''0100100001101001'')],
        expectedChunks := 1, fileMetadata := Some ?meta\<rparr>"
  have h1: "fileMetadata ?st = Some ?meta" by simp
  have h2: "checksum ?meta = 0" by simp
  have h3: "reconstruct_bytes null_runtime ?st = Some [0x48, 0x69]" by code_simp
  have c: "calculateChecksum [0x48, 0x69] = 0xB1" by code_simp
  have z: "calculateChecksum [0x00, 0x00] = 0" by code_simp
  from C9_zero_checksum_is_reported_verified [OF h1 h2 h3] h1 c z show ?thesis
    by blast
qed

subsection \<open>Synchroniser: delivery of a packet\<close>








subsection \<open>Framing: bits per character\<close>

lemma bin_digits_nonempty: "bin_digits n \<noteq> []"
  by (subst bin_digits.simps) simp

lemma bin_digits_length: "1 \<le> k \<Longrightarrow> length (bin_digits n) \<le> k \<longleftrightarrow> n < 2 ^ k"
proof (induction n arbitrary: k rule: bin_digits.induct)
  case (1 n)
  show ?case
  proof (cases "n < 2")
    case True
    then have "length (bin_digits n) = 1"
      by (subst bin_digits.simps) simp
    moreover have "(2::nat) \<le> 2 ^ k"
      using "1.prems" by (metis One_nat_def Suc_leI power_increasing_iff power_one_right one_less_numeral_iff semiring_norm(76))
    ultimately show ?thesis using True "1.prems" by simp
  next
    case False
    then have len: "length (bin_digits n) = length (bin_digits (n div 2)) + 1"
      by (subst bin_digits.simps) simp
    show ?thesis
    proof (cases "k = 1")
      case True
      have "1 \<le> length (bin_digits (n div 2))"
        using bin_digits_nonempty [of "n div 2"] by (simp add: Suc_le_eq)
      with len True False show ?thesis by (simp add: bin_digits_nonempty)
    next
      case False
      with "1.prems" obtain j where k: "k = Suc j" and j: "1 \<le> j"
        by (cases k) auto
      from "1.IH" [OF \<open>\<not> n < 2\<close> j]
      have "length (bin_digits (n div 2)) \<le> j \<longleftrightarrow> n div 2 < 2 ^ j" .
      moreover have "n div 2 < 2 ^ j \<longleftrightarrow> n < 2 ^ Suc j"
        by (simp add: less_mult_imp_div_less div_less_iff_less_mult mult.commute)
      ultimately show ?thesis using len k by simp
    qed
  qed
qed

lemma encode_char_length: "length (encode_char c) = max 8 (length (bin_digits (unat c)))"
  by (simp add: encode_char_def padStart_def)

lemma encode_char_8: "length (encode_char c) = 8 \<longleftrightarrow> unat c \<le> 255"
proof -
  have "length (bin_digits (unat c)) \<le> 8 \<longleftrightarrow> unat c < 2 ^ 8"
    by (rule bin_digits_length) simp
  then show ?thesis unfolding encode_char_length by auto
qed

lemma encode_char_ge_8: "8 \<le> length (encode_char c)"
  by (simp add: encode_char_length)

lemma foldl_append_concat:
  "foldl (\<lambda>acc x. acc @ f x) a xs = a @ concat (map f xs)"
  by (induction xs arbitrary: a) simp_all

lemma encodeToBinary_concat: "encodeToBinary m = concat (map encode_char m)"
  by (simp add: encodeToBinary_def foldl_append_concat)

lemma encodeToBinary_Cons: "encodeToBinary (c # m) = encode_char c @ encodeToBinary m"
  by (simp add: encodeToBinary_concat)

lemma encodeToBinary_length:
  "length (encodeToBinary m) = 8 * length m \<longleftrightarrow> (\<forall>c\<in>set m. unat c \<le> 255)"
proof -
  have ge: "8 * length m \<le> length (encodeToBinary m)" for m
  proof (induction m)
    case Nil
    then show ?case by (simp add: encodeToBinary_concat)
  next
    case (Cons c m)
    with encode_char_ge_8 [of c] show ?case by (simp add: encodeToBinary_Cons)
  qed
  show ?thesis
  proof (induction m)
    case Nil
    then show ?case by (simp add: encodeToBinary_concat)
  next
    case (Cons c m)
    have "length (encodeToBinary (c # m)) = 8 * length (c # m)
          \<longleftrightarrow> length (encode_char c) = 8 \<and> length (encodeToBinary m) = 8 * length m"
      using encode_char_ge_8 [of c] ge [of m] by (auto simp: encodeToBinary_Cons)
    with Cons.IH show ?case by (simp add: encode_char_8)
  qed
qed

lemma parse_bits_snoc: "parse_bits (bs @ [b]) = 2 * parse_bits bs + (if b then 1 else 0)"
  by (simp add: parse_bits_def)

lemma parse_bits_bin_digits: "parse_bits (bin_digits n) = n"
proof (induction n rule: bin_digits.induct)
  case (1 n)
  show ?case
  proof (cases "n < 2")
    case True
    then have "bin_digits n = [odd n]" by (subst bin_digits.simps) simp
    moreover from True have "n = 0 \<or> n = 1" by auto
    ultimately show ?thesis by (auto simp: parse_bits_def)
  next
    case False
    then have "bin_digits n = bin_digits (n div 2) @ [odd n]"
      by (subst bin_digits.simps) simp
    with "1.IH" [OF False] show ?thesis
      by (simp add: parse_bits_snoc)
  qed
qed

lemma parse_bits_pad: "parse_bits (replicate k False @ bs) = parse_bits bs"
proof (induction k)
  case 0
  then show ?case by simp
next
  case (Suc k)
  have "foldl (\<lambda>acc b. 2 * acc + (if b then 1 else 0)) 0 (False # xs)
        = foldl (\<lambda>acc b. 2 * acc + (if b then 1 else 0)) (0::nat) xs" for xs
    by simp
  with Suc show ?case by (simp add: parse_bits_def)
qed

lemma regroup_encode_char:
  assumes "unat c \<le> 255"
  shows "regroup (encode_char c @ rest) = char_of (unat c) # regroup rest"
proof -
  from assms have len: "length (encode_char c) = 8" by (simp add: encode_char_8)
  then have "decode_byte (take 8 (encode_char c @ rest)) = char_of (unat c)"
    by (simp add: decode_byte_def encode_char_def padStart_def parse_bits_pad parse_bits_bin_digits)
  with len show ?thesis by (subst regroup.simps) simp
qed

lemma regroup_short: "length bits < 8 \<Longrightarrow> regroup bits = []"
  by (subst regroup.simps) simp

lemma regroup_inverts:
  "\<forall>c\<in>set m. unat c \<le> 255 \<Longrightarrow> code_units (regroup (encodeToBinary m)) = m"
proof (induction m)
  case Nil
  then show ?case by (simp add: encodeToBinary_concat regroup_short code_units_def)
next
  case (Cons c m)
  then have c: "unat c \<le> 255" and IH: "code_units (regroup (encodeToBinary m)) = m"
    by simp_all
  from c have "(word_of_nat (of_char (char_of (unat c)) :: nat) :: code_unit) = c"
    by simp
  with IH show ?case
    by (simp add: encodeToBinary_Cons regroup_encode_char [OF c] code_units_def)
qed

lemma code_units_small: "c \<in> set (code_units s) \<Longrightarrow> unat c \<le> 255"
proof -
  assume "c \<in> set (code_units s)"
  then obtain ch where c: "c = word_of_nat (of_char ch)"
    by (auto simp: code_units_def)
  have "(of_char ch :: nat) < 256" by simp
  then have "(of_char ch :: nat) < 65536" by linarith
  then have "unat (word_of_nat (of_char ch) :: code_unit) = of_char ch"
    by (simp add: unat_of_nat)
  with c have "unat c = of_char ch" by simp
  with \<open>(of_char ch :: nat) < 256\<close> show ?thesis by linarith
qed

text \<open>
  C10. A character is encoded in exactly 8 bits precisely when its code is at most 255,
  and in more than 8 bits from 256 on; so a packet string has 8 bits per character
  precisely when all its characters are at most 255. In that case regrouping the bits by
  8 gives the packet string back; with a character of 256 or more it never does.
\<close>

theorem C10_eight_bits_only_below_256:
  "(length (encode_char c) = 8 \<longleftrightarrow> unat c \<le> 255)
   \<and> (256 \<le> unat c \<longrightarrow> 8 < length (encode_char c))
   \<and> (length (encodeToBinary m) = 8 * length m \<longleftrightarrow> (\<forall>x\<in>set m. unat x \<le> 255))
   \<and> ((\<forall>x\<in>set m. unat x \<le> 255) \<longrightarrow> code_units (regroup (encodeToBinary m)) = m)
   \<and> ((\<exists>x\<in>set m. 256 \<le> unat x) \<longrightarrow> code_units (regroup (encodeToBinary m)) \<noteq> m)"
proof (intro conjI impI)
  show "length (encode_char c) = 8 \<longleftrightarrow> unat c \<le> 255"
    by (rule encode_char_8)
next
  assume "256 \<le> unat c"
  with encode_char_8 [of c] encode_char_ge_8 [of c] show "8 < length (encode_char c)"
    by simp
next
  show "length (encodeToBinary m) = 8 * length m \<longleftrightarrow> (\<forall>x\<in>set m. unat x \<le> 255)"
    by (rule encodeToBinary_length)
next
  assume "\<forall>x\<in>set m. unat x \<le> 255"
  then show "code_units (regroup (encodeToBinary m)) = m"
    by (rule regroup_inverts)
next
  assume "\<exists>x\<in>set m. 256 \<le> unat x"
  then obtain x where x: "x \<in> set m" "256 \<le> unat x" by blast
  show "code_units (regroup (encodeToBinary m)) \<noteq> m"
  proof
    assume "code_units (regroup (encodeToBinary m)) = m"
    with x(1) have "x \<in> set (code_units (regroup (encodeToBinary m)))" by simp
    then have "unat x \<le> 255" by (rule code_units_small)
    with x(2) show False by simp
  qed
qed

theorem C10_eight_bits_witness:
  "256 \<le> unat (0x100 :: code_unit)
   \<and> length (encode_char 0x100) = 9
   \<and> 8 < length (encode_char 0x100)
   \<and> code_units (regroup (encodeToBinary [0x4D, 0x45])) = [0x4D, 0x45]
   \<and> code_units (regroup (encodeToBinary [0x4D, 0x100])) \<noteq> [0x4D, 0x100]"
proof -
  have h1: "256 \<le> unat (0x100 :: code_unit)" by simp
  have h2: "\<forall>x\<in>set [0x4D, 0x45 :: code_unit]. unat x \<le> 255" by simp
  have h3: "\<exists>x\<in>set [0x4D, 0x100 :: code_unit]. 256 \<le> unat x" by simp
  have l: "length (encode_char 0x100) = 9" by code_simp
  from C10_eight_bits_only_below_256 [of "0x100" "[0x4D, 0x45]"]
    C10_eight_bits_only_below_256 [of "0x100" "[0x4D, 0x100]"] h1 h2 h3 l
  show ?thesis by blast
qed

subsection \<open>Framing: interleaving over the channels\<close>

lemma stream_len_Suc:
  assumes "1 \<le> N" and "c < N"
  shows "stream_len N c (Suc n) = stream_len N c n + (if c = n mod N then 1 else 0)"
proof (cases "Suc (n mod N) = N")
  case True
  then have "Suc n mod N = 0" "Suc n div N = Suc (n div N)"
    by (simp_all add: mod_Suc div_Suc)
  with True assms show ?thesis by (auto simp: stream_len_def)
next
  case False
  then have "Suc n mod N = Suc (n mod N)" "Suc n div N = n div N"
    by (simp_all add: mod_Suc div_Suc)
  with assms show ?thesis by (auto simp: stream_len_def)
qed

lemma stream_len_iff:
  assumes "1 \<le> N" and "c < N"
  shows "k < stream_len N c n \<longleftrightarrow> k * N + c < n"
proof -
  define q r where "q = n div N" and "r = n mod N"
  have n: "n = q * N + r" and r: "r < N"
    using assms by (simp_all add: q_def r_def)
  have sl: "stream_len N c n = q + (if c < r then 1 else 0)"
    by (simp add: stream_len_def q_def r_def)
  consider "k < q" | "k = q" | "q < k" by linarith
  then show ?thesis
  proof cases
    case 1
    then have "Suc k * N \<le> q * N" by (intro mult_le_mono1) simp
    then have "k * N + N \<le> q * N" by simp
    with assms(2) n have "k * N + c < n" by linarith
    moreover from 1 have "k < q + (if c < r then 1 else 0)" by simp
    ultimately show ?thesis unfolding sl by simp
  next
    case 2
    have "q * N + c < n \<longleftrightarrow> c < r" using n by linarith
    with 2 show ?thesis unfolding sl by simp
  next
    case 3
    then have "Suc q * N \<le> k * N" by (intro mult_le_mono1) simp
    then have "q * N + N \<le> k * N" by simp
    with r n have "\<not> k * N + c < n" by linarith
    moreover from 3 have "\<not> k < q + (if c < r then 1 else 0)" by simp
    ultimately show ?thesis unfolding sl by simp
  qed
qed

lemma stream_len_le_first: "stream_len N c n \<le> stream_len N 0 n"
  by (simp add: stream_len_def)

lemma stream_len_times:
  assumes "1 \<le> N"
  shows "stream_len N 0 n * N = n + (N - n mod N) mod N"
proof -
  define q r where "q = n div N" and "r = n mod N"
  have n: "n = q * N + r" and r: "r < N"
    using assms by (simp_all add: q_def r_def)
  have sl: "stream_len N 0 n = q + (if 0 < r then 1 else 0)"
    by (simp add: stream_len_def q_def r_def)
  show ?thesis
  proof (cases "r = 0")
    case True
    with sl n show ?thesis by (simp add: r_def [symmetric])
  next
    case False
    with r have pad: "(N - r) mod N = N - r" by simp
    from False sl have "stream_len N 0 n * N = q * N + N" by simp
    also from r have "\<dots> = (q * N + r) + (N - r)" by simp
    finally show ?thesis unfolding r_def [symmetric] pad using n by simp
  qed
qed

lemma distribute_upto_Suc:
  "distribute_upto N s (Suc n) =
     (distribute_upto N s n)[n mod N := distribute_upto N s n ! (n mod N) @ [s ! n] ]"
  by (simp add: distribute_upto_def)

lemma distribute_upto_length: "length (distribute_upto N s n) = N"
  by (induction n) (simp_all add: distribute_upto_Suc, simp add: distribute_upto_def)

lemma distribute_upto_nth:
  assumes "1 \<le> N" and "c < N"
  shows "distribute_upto N s n ! c = map (\<lambda>k. s ! (k * N + c)) [0 ..< stream_len N c n]"
proof (induction n)
  case 0
  with assms show ?case by (simp add: distribute_upto_def stream_len_def)
next
  case (Suc n)
  let ?L = "stream_len N c n"
  show ?case
  proof (cases "c = n mod N")
    case True
    then have len: "stream_len N c (Suc n) = Suc ?L"
      using stream_len_Suc [OF assms, of n] by simp
    from True have "?L = n div N" by (simp add: stream_len_def)
    with True have at: "?L * N + c = n" by simp
    have "distribute_upto N s (Suc n) ! c = distribute_upto N s n ! c @ [s ! n]"
      using True assms by (simp add: distribute_upto_Suc distribute_upto_length)
    also have "\<dots> = map (\<lambda>k. s ! (k * N + c)) [0 ..< ?L] @ [s ! (?L * N + c)]"
      unfolding at by (simp only: Suc)
    also have "\<dots> = map (\<lambda>k. s ! (k * N + c)) [0 ..< Suc ?L]"
      by simp
    finally show ?thesis unfolding len .
  next
    case False
    then have "stream_len N c (Suc n) = stream_len N c n"
      using stream_len_Suc [OF assms, of n] by simp
    with False assms Suc show ?thesis
      by (simp add: distribute_upto_Suc distribute_upto_length)
  qed
qed

lemma distribute_eq: "distribute N s = distribute_upto N s (length s)"
  by (simp add: distribute_def distribute_upto_def)

lemma distribute_length: "length (distribute N s) = N"
  by (simp add: distribute_eq distribute_upto_length)

lemma distribute_nth:
  assumes "1 \<le> N" and "c < N"
  shows "distribute N s ! c = map (\<lambda>k. s ! (k * N + c)) [0 ..< stream_len N c (length s)]"
  unfolding distribute_eq by (rule distribute_upto_nth [OF assms])

lemma foldl_max_eq:
  assumes "m \<in> set xs" and "\<forall>x\<in>set xs. x \<le> m"
  shows "foldl max (0::nat) xs = m"
proof -
  have "foldl max 0 xs = fold max xs 0"
    by (simp add: foldl_conv_fold max.commute)
  also have "\<dots> = Max (set (0 # xs))"
    by (rule Max.set_eq_fold [symmetric])
  also have "\<dots> = m"
    using assms by (intro Max_eqI) auto
  finally show ?thesis .
qed

lemma maxLen_distribute:
  assumes "1 \<le> N"
  shows "maxLen (distribute N s) = stream_len N 0 (length s)"
proof -
  let ?d = "distribute_upto N s (length s)"
  have len: "length (?d ! c) = stream_len N c (length s)" if "c < N" for c
    using distribute_upto_nth [OF assms that] by simp
  have "map length ?d = map (\<lambda>c. stream_len N c (length s)) [0 ..< N]"
    by (rule nth_equalityI) (simp_all add: distribute_upto_length len)
  moreover have "foldl max 0 (map (\<lambda>c. stream_len N c (length s)) [0 ..< N])
                 = stream_len N 0 (length s)"
  proof (rule foldl_max_eq)
    from assms show "stream_len N 0 (length s)
        \<in> set (map (\<lambda>c. stream_len N c (length s)) [0 ..< N])"
      by (auto intro!: image_eqI [where x = 0])
    show "\<forall>x\<in>set (map (\<lambda>c. stream_len N c (length s)) [0 ..< N]). x \<le> stream_len N 0 (length s)"
      by (auto simp: stream_len_le_first)
  qed
  ultimately show ?thesis by (simp add: maxLen_def distribute_eq)
qed

lemma padded_nth:
  assumes "1 \<le> N" and "c < N" and "k < stream_len N 0 (length s)"
  shows "pad_streams (distribute N s) ! c ! k
         = (if k * N + c < length s then s ! (k * N + c) else False)"
proof -
  let ?d = "distribute N s"
  note dc = distribute_nth [OF assms(1,2), of s]
  have "pad_streams ?d ! c
        = ?d ! c @ replicate (stream_len N 0 (length s) - length (?d ! c)) False"
    using assms(2) by (simp add: pad_streams_def maxLen_distribute [OF assms(1)]
        distribute_length)
  then have "pad_streams ?d ! c ! k
        = (if k < stream_len N c (length s) then s ! (k * N + c) else False)"
    using assms(3) stream_len_le_first [of N c "length s"]
    by (simp add: dc nth_append)
  then show ?thesis by (simp add: stream_len_iff [OF assms(1,2)])
qed

lemma concat_rows_length:
  "\<forall>row\<in>set rows. length row = N \<Longrightarrow> length (concat rows) = length rows * N"
  by (induction rows) simp_all

lemma concat_rows_nth:
  assumes "\<forall>row\<in>set rows. length row = N" and "j < length rows * N"
  shows "concat rows ! j = rows ! (j div N) ! (j mod N)"
  using assms
proof (induction rows arbitrary: j)
  case Nil
  then show ?case by simp
next
  case (Cons row rows)
  then have N: "0 < N" by (cases N) simp_all
  show ?case
  proof (cases "j < N")
    case True
    with Cons.prems show ?thesis by (simp add: nth_append)
  next
    case False
    then have "j - N < length rows * N" using Cons.prems by simp
    with Cons have "concat rows ! (j - N) = rows ! ((j - N) div N) ! ((j - N) mod N)"
      by simp
    moreover from False N have "j div N = Suc ((j - N) div N)"
      by (simp add: le_div_geq)
    moreover from False have "j mod N = (j - N) mod N"
      by (simp add: le_mod_geq)
    ultimately show ?thesis using False Cons.prems by (simp add: nth_append)
  qed
qed

lemma append_bits_Some: "append_bits stream (map Some bs) = stream @ bs"
  unfolding append_bits_def by (induction bs arbitrary: stream) simp_all

lemma foldl_append_bits: "foldl append_bits a (ideal_channel slots) = a @ concat slots"
  unfolding ideal_channel_def
  by (induction slots arbitrary: a) (simp_all add: append_bits_Some)

text \<open>
  C6. For at least one channel, the slots of \<open>transmitBinaryFSK\<close>, detected without
  error and appended by the receiver slot after slot in ascending channel order, give the
  bit string that was sent, followed by the zero padding of the last slot: fewer than
  \<open>N\<close> bits.
\<close>

theorem C6_interleave_roundtrip:
  assumes "1 \<le> N"
  shows "foldl append_bits [] (ideal_channel (fsk_slots N s))
           = s @ replicate ((N - length s mod N) mod N) False
         \<and> (N - length s mod N) mod N \<le> N - 1"
proof
  let ?M = "stream_len N 0 (length s)"
  let ?p = "pad_streams (distribute N s)"
  let ?rows = "map (\<lambda>symbolIdx. map (\<lambda>ch. ?p ! ch ! symbolIdx) [0 ..< N]) [0 ..< ?M]"
  have slots: "fsk_slots N s = ?rows"
    by (simp add: fsk_slots_def Let_def maxLen_distribute [OF assms])
  have rows_len: "\<forall>row\<in>set ?rows. length row = N" by auto
  have total: "?M * N = length s + (N - length s mod N) mod N"
    by (rule stream_len_times [OF assms])
  have "concat ?rows = s @ replicate ((N - length s mod N) mod N) False"
  proof (rule nth_equalityI)
    show "length (concat ?rows) = length (s @ replicate ((N - length s mod N) mod N) False)"
      using concat_rows_length [OF rows_len] total by simp
  next
    fix j assume "j < length (concat ?rows)"
    then have j: "j < ?M * N" using concat_rows_length [OF rows_len] by simp
    from assms have c: "j mod N < N" by simp
    from j assms have k: "j div N < ?M"
      by (simp add: less_mult_imp_div_less)
    have "concat ?rows ! j = ?rows ! (j div N) ! (j mod N)"
      using rows_len j by (intro concat_rows_nth) simp_all
    also have "\<dots> = ?p ! (j mod N) ! (j div N)"
      using k c by simp
    also have "\<dots> = (if j div N * N + j mod N < length s
                     then s ! (j div N * N + j mod N) else False)"
      by (rule padded_nth [OF assms c k])
    also have "\<dots> = (if j < length s then s ! j else False)"
      by simp
    also have "\<dots> = (s @ replicate ((N - length s mod N) mod N) False) ! j"
      using j total by (simp add: nth_append)
    finally show "concat ?rows ! j = (s @ replicate ((N - length s mod N) mod N) False) ! j" .
  qed
  then show "foldl append_bits [] (ideal_channel (fsk_slots N s))
           = s @ replicate ((N - length s mod N) mod N) False"
    by (simp add: foldl_append_bits slots)
next
  from assms have "(N - length s mod N) mod N < N" by simp
  then show "(N - length s mod N) mod N \<le> N - 1" by simp
qed

theorem C6_interleave_witness:
  "(1::nat) \<le> 4
   \<and> fsk_slots 4 [True, False, True, True, False, False, True, False, True, True]
     = [ [True, False, True, True], [False, False, True, False], [True, True, False, False] ]
   \<and> foldl append_bits []
       (ideal_channel (fsk_slots 4 [True, False, True, True, False, False, True, False, True, True]))
     = [True, False, True, True, False, False, True, False, True, True] @ replicate 2 False"
proof -
  have h: "(1::nat) \<le> 4" by simp
  have e: "fsk_slots 4 [True, False, True, True, False, False, True, False, True, True]
     = [ [True, False, True, True], [False, False, True, False], [True, True, False, False] ]"
    by code_simp
  have p: "(4 - length [True, False, True, True, False, False, True, False, True, True] mod 4) mod 4
           = (2::nat)"
    by simp
  from C6_interleave_roundtrip [OF h, of "[True, False, True, True, False, False, True, False, True, True]"]
    h e show ?thesis unfolding p by blast
qed

subsection \<open>Calibration\<close>








end
